theory Spec2Isabelle
  imports Main "HOL-Library.Word"
begin

unbundle bit_operations_syntax

section \<open>Machine constants\<close>

text \<open>
  The kernel runs on a 32-bit big-endian MIPS. Addresses (\<open>vaddr_t\<close>, \<open>paddr_t\<close>),
  \<open>size_t\<close> and \<open>unsigned\<close> values are 32-bit words, so \<open>+\<close>, \<open>-\<close> and \<open>*\<close> wrap
  around as they do in the C code.

  The header files are not among the sources. The constants below that belong to the
  OS/161 base system carry their usual values. \<open>TOP_TEN\<close>, \<open>MID_TEN\<close> and \<open>PTE_NUM\<close>
  are modelled from the specification (a 10/10/12 split of the address, 1024 entries per
  level). The two repository-specific constants whose values neither the sources nor the
  specification fix, \<open>PTE_VALID\<close> and \<open>VM_STACKPAGES\<close>, are parameters of every function
  that uses them.
\<close>

type_synonym vaddr_t = "32 word"
type_synonym paddr_t = "32 word"

definition PAGE_SIZE :: "32 word" where
  "PAGE_SIZE = 4096"

definition PAGE_FRAME :: "32 word" where
  "PAGE_FRAME = 0xfffff000"

definition MIPS_KSEG0 :: "32 word" where
  "MIPS_KSEG0 = 0x80000000"

definition USERSTACK :: "32 word" where
  "USERSTACK = MIPS_KSEG0"

definition PADDR_TO_KVADDR :: "paddr_t \<Rightarrow> vaddr_t" where
  "PADDR_TO_KVADDR paddr = paddr + MIPS_KSEG0"

definition KVADDR_TO_PADDR :: "vaddr_t \<Rightarrow> paddr_t" where
  "KVADDR_TO_PADDR vaddr = vaddr - MIPS_KSEG0"

text \<open>Modelled from the spec: the page table is indexed by the top 10 and the next 10
  bits of a virtual address and has 1024 entries per level.\<close>

definition TOP_TEN :: "32 word" where
  "TOP_TEN = 0xffc00000"

definition MID_TEN :: "32 word" where
  "MID_TEN = 0x003ff000"

definition PTE_NUM :: nat where
  "PTE_NUM = 1024"

definition NUM_TLB :: nat where
  "NUM_TLB = 64"

definition TLBLO_VALID :: "32 word" where
  "TLBLO_VALID = 0x00000200"

definition TLBLO_DIRTY :: "32 word" where
  "TLBLO_DIRTY = 0x00000400"

definition PF_R :: "32 word" where
  "PF_R = 4"

definition PF_W :: "32 word" where
  "PF_W = 2"

definition PF_X :: "32 word" where
  "PF_X = 1"

definition VM_FAULT_READ :: int where
  "VM_FAULT_READ = 0"

definition VM_FAULT_WRITE :: int where
  "VM_FAULT_WRITE = 1"

definition VM_FAULT_READONLY :: int where
  "VM_FAULT_READONLY = 2"

text \<open>A function that returns an \<open>int\<close> status returns \<open>OK\<close> for 0 and \<open>Err e\<close> for an
  error number. A failed \<open>KASSERT\<close>, a call of \<open>panic\<close> and a dereferenced null pointer
  stop the kernel: they are the left summand of a result.\<close>

datatype errno = ENOMEM | EFAULT | EINVAL

datatype status = OK | Err errno

datatype halt = KAssert | Panic | NullDeref

section \<open>Memory\<close>

text \<open>Physical memory, seen through the kernel's direct-mapped segment, is a function
  from byte addresses to bytes. A \<open>vaddr_t *\<close> dereference reads or writes four bytes,
  most significant first.\<close>

type_synonym memory = "32 word \<Rightarrow> 8 word"

definition load32 :: "memory \<Rightarrow> 32 word \<Rightarrow> 32 word" where
  "load32 m a =
     push_bit 24 (ucast (m a)) OR push_bit 16 (ucast (m (a + 1))) OR
     push_bit 8 (ucast (m (a + 2))) OR ucast (m (a + 3))"

definition store32 :: "memory \<Rightarrow> 32 word \<Rightarrow> 32 word \<Rightarrow> memory" where
  "store32 m a v =
     m(a := ucast (drop_bit 24 v), a + 1 := ucast (drop_bit 16 v),
       a + 2 := ucast (drop_bit 8 v), a + 3 := ucast v)"

definition bzero :: "memory \<Rightarrow> 32 word \<Rightarrow> 32 word \<Rightarrow> memory" where
  "bzero m a len = (\<lambda>x. if x - a < len then 0 else m x)"

definition memmove :: "memory \<Rightarrow> 32 word \<Rightarrow> 32 word \<Rightarrow> 32 word \<Rightarrow> memory" where
  "memmove m dst src len = (\<lambda>x. if x - dst < len then m (src + (x - dst)) else m x)"

section \<open>Kernel state\<close>

record as_region =
  as_vbase :: vaddr_t
  as_npages :: "32 word"
  as_permissions :: "32 word"
  as_next_region :: "32 word"

record addrspace =
  as_pagetable :: vaddr_t
  as_regions_start :: "32 word"

text \<open>
  The state holds the physical memory, the three static variables of the frame table,
  the two variables of the boot-time allocator behind \<open>ram_stealmem\<close>, the objects
  obtained from \<open>kmalloc\<close> (region nodes and address spaces, each a heap from pointers to
  structs), the TLB and the address space of the current thread.

  \<open>kmalloc\<close> is not among the sources; the addresses it will hand out are the list
  \<open>kmalloc_pool\<close>, and it returns the null pointer when the list is empty.
  \<open>tlb_random_slot\<close> is the slot the hardware picks for the next \<open>tlb_random\<close>.
\<close>

record kstate =
  mem :: memory
  frame_table :: "32 word"
  frametop :: paddr_t
  freeframe :: paddr_t
  firstpaddr :: paddr_t
  lastpaddr :: paddr_t
  region_heap :: "32 word \<Rightarrow> as_region"
  addrspace_heap :: "32 word \<Rightarrow> addrspace"
  kmalloc_pool :: "32 word list"
  tlb :: "nat \<Rightarrow> 32 word \<times> 32 word"
  tlb_random_slot :: nat
  curthread_addrspace :: "32 word"

section \<open>Frame table\<close>

text \<open>Modelled from the spec: \<open>ram_stealmem\<close> is the boot environment's allocator, used
  before the frame table exists; it hands out the next pages of the usable range.\<close>

definition ram_stealmem :: "32 word \<Rightarrow> kstate \<Rightarrow> paddr_t \<times> kstate" where
  "ram_stealmem npages s =
     (let size = npages * PAGE_SIZE in
      if firstpaddr s + size > lastpaddr s then (0, s)
      else (firstpaddr s, s\<lparr>firstpaddr := firstpaddr s + size\<rparr>))"

text \<open>A \<open>struct frame_table_entry\<close> holds the one field \<open>next_freeframe\<close>, a \<open>paddr_t\<close>:
  entry \<open>i\<close> of the table is the word at \<open>frame_table + 4 * i\<close>.\<close>

definition frame_table_entry :: "kstate \<Rightarrow> 32 word \<Rightarrow> 32 word" where
  "frame_table_entry s i = frame_table s + i * 4"

definition getppages :: "int \<Rightarrow> kstate \<Rightarrow> paddr_t \<times> kstate" where
  "getppages npages s =
     (if frame_table s = 0 then ram_stealmem (word_of_int npages) s
      else if npages > 1 then (0, s)
      else if freeframe s = 0 then (0, s)
      else
        let paddr = freeframe s;
            i = (freeframe s - frametop s) div PAGE_SIZE;
            p = frame_table_entry s i;
            s1 = s\<lparr>freeframe := load32 (mem s) p\<rparr>;
            s2 = s1\<lparr>mem := store32 (mem s1) p 0\<rparr>
        in (paddr, s2))"

definition alloc_kpages :: "int \<Rightarrow> kstate \<Rightarrow> vaddr_t \<times> kstate" where
  "alloc_kpages npages s =
     (let (paddr, s1) = getppages npages s in
      if paddr = 0 then (0, s1) else (PADDR_TO_KVADDR paddr, s1))"

definition freeppages :: "paddr_t \<Rightarrow> kstate \<Rightarrow> kstate" where
  "freeppages paddr s =
     (let i = (paddr - frametop s) div PAGE_SIZE;
          p = frame_table_entry s i;
          s1 = s\<lparr>mem := store32 (mem s) p (freeframe s)\<rparr>
      in s1\<lparr>freeframe := paddr\<rparr>)"

definition free_kpages :: "vaddr_t \<Rightarrow> kstate \<Rightarrow> halt + kstate" where
  "free_kpages addr s =
     (if addr < MIPS_KSEG0 then Inl KAssert
      else
        let paddr = KVADDR_TO_PADDR addr in
        if paddr \<le> frametop s then Inr s
        else Inr (freeppages paddr s))"


text \<open>Modelled from the spec: \<open>ram_getsize\<close> reports the usable range of physical
  memory, \<open>[first, last)\<close>.\<close>

definition ram_getsize :: "kstate \<Rightarrow> paddr_t \<times> paddr_t" where
  "ram_getsize s = (firstpaddr s, lastpaddr s)"

definition ROUNDUP :: "32 word \<Rightarrow> 32 word \<Rightarrow> 32 word" where
  "ROUNDUP a b = ((a + b - 1) div b) * b"

text \<open>The initialisation loop of \<open>frametable_bootstrap\<close>: \<open>n\<close> iterations remain, \<open>i\<close> is
  the loop variable and \<open>p\<close> the entry pointer.\<close>

fun frametable_bootstrap_loop ::
  "nat \<Rightarrow> 32 word \<Rightarrow> 32 word \<Rightarrow> 32 word \<Rightarrow> kstate \<Rightarrow> kstate" where
  "frametable_bootstrap_loop 0 i entry_num p s = s"
| "frametable_bootstrap_loop (Suc n) i entry_num p s =
     (if i < entry_num then
        frametable_bootstrap_loop n (i + 1) entry_num (p + 4)
          (s\<lparr>mem := store32 (mem s) p 0\<rparr>)
      else
        let paddr = frametop s + (i + 1) * PAGE_SIZE in
        frametable_bootstrap_loop n (i + 1) entry_num (p + 4)
          (s\<lparr>mem := store32 (mem s) p paddr\<rparr>))"

definition frametable_bootstrap :: "kstate \<Rightarrow> halt + kstate" where
  "frametable_bootstrap s =
     (let (firsta, lasta) = ram_getsize s in
      if firsta AND PAGE_FRAME \<noteq> firsta then Inl KAssert
      else if lasta AND PAGE_FRAME \<noteq> lasta then Inl KAssert
      else
        let framenum = (lasta - firsta) div PAGE_SIZE;
            frame_table_size = ROUNDUP (framenum * 4) PAGE_SIZE;
            entry_num = frame_table_size div PAGE_SIZE
        in
        if frame_table_size AND PAGE_FRAME \<noteq> frame_table_size then Inl KAssert
        else
          let s1 = s\<lparr>frametop := firsta, freeframe := firsta + frame_table_size\<rparr> in
          if freeframe s1 \<ge> lasta then Inl Panic
          else
            let s2 = s1\<lparr>frame_table := PADDR_TO_KVADDR firsta\<rparr> in
            Inr (frametable_bootstrap_loop (unat (framenum - 1)) 0 entry_num
                   (frame_table s2) s2))"

definition vm_bootstrap :: "kstate \<Rightarrow> halt + kstate" where
  "vm_bootstrap s = frametable_bootstrap s"

section \<open>Address spaces\<close>

text \<open>Modelled from the spec: \<open>kmalloc\<close> is not among the sources. It returns the null
  pointer, or the address of a block that it has not handed out before.\<close>

definition kmalloc :: "kstate \<Rightarrow> 32 word \<times> kstate" where
  "kmalloc s =
     (case kmalloc_pool s of
        [] \<Rightarrow> (0, s)
      | a # rest \<Rightarrow> (a, s\<lparr>kmalloc_pool := rest\<rparr>))"

text \<open>Assignments through a \<open>struct as_region *\<close> or a \<open>struct addrspace *\<close>.\<close>

definition set_region :: "32 word \<Rightarrow> (as_region \<Rightarrow> as_region) \<Rightarrow> kstate \<Rightarrow> kstate" where
  "set_region p f s = s\<lparr>region_heap := (region_heap s)(p := f (region_heap s p))\<rparr>"

definition set_addrspace :: "32 word \<Rightarrow> (addrspace \<Rightarrow> addrspace) \<Rightarrow> kstate \<Rightarrow> kstate" where
  "set_addrspace p f s = s\<lparr>addrspace_heap := (addrspace_heap s)(p := f (addrspace_heap s p))\<rparr>"

definition as_zero_region :: "vaddr_t \<Rightarrow> 32 word \<Rightarrow> kstate \<Rightarrow> kstate" where
  "as_zero_region vaddr npages s = s\<lparr>mem := bzero (mem s) vaddr (npages * PAGE_SIZE)\<rparr>"

definition as_create :: "kstate \<Rightarrow> 32 word \<times> kstate" where
  "as_create s =
     (let (as, s1) = kmalloc s in
      if as = 0 then (0, s1)
      else
        let (pt, s2) = alloc_kpages 1 s1;
            s3 = set_addrspace as (\<lambda>a. a\<lparr>as_pagetable := pt\<rparr>) s2
        in
        if as_pagetable (addrspace_heap s3 as) = 0 then (0, s3)
        else
          let s4 = as_zero_region (as_pagetable (addrspace_heap s3 as)) 1 s3;
              s5 = set_addrspace as (\<lambda>a. a\<lparr>as_regions_start := 0\<rparr>) s4
          in (as, s5))"

text \<open>The body that \<open>as_copy\<close> runs for each region node \<open>s\<close> of the old list: the fields
  of \<open>s\<close> are copied into the node \<open>news\<close> that \<open>kmalloc\<close> has just returned. The result of
  \<open>kmalloc\<close> is not checked, so a null pointer is dereferenced when it fails.\<close>

definition as_copy_region :: "32 word \<Rightarrow> 32 word \<Rightarrow> kstate \<Rightarrow> halt + kstate" where
  "as_copy_region s news st =
     (if as_vbase (region_heap st s) = 0 then Inl KAssert
      else if as_npages (region_heap st s) = 0 then Inl KAssert
      else if news = 0 then Inl NullDeref
      else
        let st1 = set_region news (\<lambda>r. r\<lparr>as_vbase := as_vbase (region_heap st s)\<rparr>) st;
            st2 = set_region news (\<lambda>r. r\<lparr>as_npages := as_npages (region_heap st1 s)\<rparr>) st1;
            st3 = set_region news
                    (\<lambda>r. r\<lparr>as_permissions := as_permissions (region_heap st2 s)\<rparr>) st2
        in Inr (set_region news (\<lambda>r. r\<lparr>as_next_region := 0\<rparr>) st3))"

text \<open>The \<open>while (s != 0)\<close> loop of \<open>as_copy\<close>. A region list that is cyclic keeps it
  running for ever: the result is then \<open>None\<close>.\<close>

partial_function (option) as_copy_regions ::
  "32 word \<Rightarrow> 32 word \<Rightarrow> kstate \<Rightarrow> (halt + kstate) option" where
  "as_copy_regions s news st =
     (if s = 0 then Some (Inr st)
      else
        let olds = news;
            (news1, st1) = kmalloc st
        in
        case as_copy_region s news1 st1 of
          Inl h \<Rightarrow> Some (Inl h)
        | Inr st2 \<Rightarrow>
            let st3 = set_region olds (\<lambda>r. r\<lparr>as_next_region := news1\<rparr>) st2
            in as_copy_regions (as_next_region (region_heap st3 s)) news1 st3)"

text \<open>The inner loop of the page-table copy: \<open>n\<close> iterations remain (\<open>n = PTE_NUM - j\<close>),
  \<open>ovaddr2\<close> and \<open>nvaddr2\<close> point into the old and the new second-level table.\<close>

fun as_copy_ptes ::
  "32 word \<Rightarrow> nat \<Rightarrow> vaddr_t \<Rightarrow> vaddr_t \<Rightarrow> kstate \<Rightarrow> halt + kstate" where
  "as_copy_ptes pte_valid 0 ovaddr2 nvaddr2 s = Inr s"
| "as_copy_ptes pte_valid (Suc n) ovaddr2 nvaddr2 s =
     (if load32 (mem s) ovaddr2 AND pte_valid \<noteq> 0 then
        let (vaddr, s1) = alloc_kpages 1 s in
        if vaddr = 0 then Inl KAssert
        else
          let s2 = s1\<lparr>mem := memmove (mem s1) vaddr
                                (load32 (mem s1) ovaddr2 AND PAGE_FRAME) PAGE_SIZE\<rparr>;
              s3 = s2\<lparr>mem := store32 (mem s2) nvaddr2 (vaddr OR pte_valid)\<rparr>
          in as_copy_ptes pte_valid n (ovaddr2 + 4) (nvaddr2 + 4) s3
      else as_copy_ptes pte_valid n (ovaddr2 + 4) (nvaddr2 + 4) s)"

text \<open>The outer loop: \<open>n\<close> iterations remain (\<open>n = PTE_NUM - i\<close>), \<open>ovaddr1\<close> and \<open>nvaddr1\<close>
  point into the old and the new first-level table.\<close>

fun as_copy_pagetable ::
  "32 word \<Rightarrow> nat \<Rightarrow> vaddr_t \<Rightarrow> vaddr_t \<Rightarrow> kstate \<Rightarrow> halt + kstate" where
  "as_copy_pagetable pte_valid 0 ovaddr1 nvaddr1 s = Inr s"
| "as_copy_pagetable pte_valid (Suc n) ovaddr1 nvaddr1 s =
     (if load32 (mem s) ovaddr1 \<noteq> 0 then
        let (v, s1) = alloc_kpages 1 s;
            s2 = s1\<lparr>mem := store32 (mem s1) nvaddr1 v\<rparr>
        in
        if load32 (mem s2) nvaddr1 = 0 then Inl KAssert
        else
          let s3 = as_zero_region (load32 (mem s2) nvaddr1) 1 s2 in
          case as_copy_ptes pte_valid PTE_NUM (load32 (mem s3) ovaddr1)
                 (load32 (mem s3) nvaddr1) s3 of
            Inl h \<Rightarrow> Inl h
          | Inr s4 \<Rightarrow> as_copy_pagetable pte_valid n (ovaddr1 + 4) (nvaddr1 + 4) s4
      else as_copy_pagetable pte_valid n (ovaddr1 + 4) (nvaddr1 + 4) s)"

text \<open>\<open>as_copy old ret\<close>: the result holds the status, the pointer stored through \<open>ret\<close>
  (\<open>None\<close> when nothing is stored) and the new state.\<close>

definition as_copy ::
  "32 word \<Rightarrow> 32 word \<Rightarrow> kstate \<Rightarrow> (halt + status \<times> 32 word option \<times> kstate) option" where
  "as_copy pte_valid old st =
     (let (new, st1) = as_create st in
      if new = 0 then Some (Inr (Err ENOMEM, None, st1))
      else if old = 0 then Some (Inl NullDeref)
      else
        let s = as_regions_start (addrspace_heap st1 old) in
        if s = 0 then Some (Inr (OK, None, st1))
        else
          let (news, st2) = kmalloc st1 in
          case as_copy_region s news st2 of
            Inl h \<Rightarrow> Some (Inl h)
          | Inr st3 \<Rightarrow>
              let st4 = set_addrspace new (\<lambda>a. a\<lparr>as_regions_start := news\<rparr>) st3 in
              case as_copy_regions (as_next_region (region_heap st4 s)) news st4 of
                None \<Rightarrow> None
              | Some (Inl h) \<Rightarrow> Some (Inl h)
              | Some (Inr st5) \<Rightarrow>
                  (case as_copy_pagetable pte_valid PTE_NUM
                          (as_pagetable (addrspace_heap st5 old))
                          (as_pagetable (addrspace_heap st5 new)) st5 of
                     Inl h \<Rightarrow> Some (Inl h)
                   | Inr st6 \<Rightarrow> Some (Inr (OK, Some new, st6))))"


text \<open>The \<open>while (ar->as_next_region != 0)\<close> loop of \<open>as_define_region\<close>: it returns the
  last node of the list that starts at \<open>ar\<close>.\<close>

partial_function (option) as_last_region :: "32 word \<Rightarrow> kstate \<Rightarrow> 32 word option" where
  "as_last_region ar s =
     (if as_next_region (region_heap s ar) \<noteq> 0
      then as_last_region (as_next_region (region_heap s ar)) s
      else Some ar)"

text \<open>The fields of a new region node, written through the pointer \<open>p\<close> that \<open>kmalloc\<close>
  returned and the caller stored in the list. \<open>readable | writeable | executable\<close> is the
  bitwise or of the three \<open>int\<close> arguments.\<close>

definition as_init_region ::
  "32 word \<Rightarrow> vaddr_t \<Rightarrow> 32 word \<Rightarrow> 32 word \<Rightarrow> 32 word \<Rightarrow> 32 word \<Rightarrow> kstate \<Rightarrow> halt + kstate" where
  "as_init_region p vaddr npages readable writeable executable s =
     (if p = 0 then Inl NullDeref
      else
        let s1 = set_region p (\<lambda>r. r\<lparr>as_vbase := vaddr\<rparr>) s;
            s2 = set_region p (\<lambda>r. r\<lparr>as_npages := npages\<rparr>) s1;
            s3 = set_region p
                   (\<lambda>r. r\<lparr>as_permissions := readable OR writeable OR executable\<rparr>) s2
        in Inr (set_region p (\<lambda>r. r\<lparr>as_next_region := 0\<rparr>) s3))"

text \<open>The body of the page loop, which \<open>as_define_region\<close> and \<open>as_define_stack\<close> both
  contain: the second-level table for \<open>vaddr\<close> is allocated and zeroed when it is absent
  (\<open>Err EFAULT\<close> is the early return when there is no frame for it), and the entry of
  \<open>vaddr\<close> in it is set to 0.\<close>

definition as_clear_pte :: "vaddr_t \<Rightarrow> vaddr_t \<Rightarrow> kstate \<Rightarrow> status \<times> kstate" where
  "as_clear_pte vaddr1 vaddr s =
     (let index2 = drop_bit 12 (vaddr AND MID_TEN);
          vaddr2 = load32 (mem s) vaddr1 + index2 * 4
      in (OK, s\<lparr>mem := store32 (mem s) vaddr2 0\<rparr>))"

definition as_prepare_pte :: "32 word \<Rightarrow> vaddr_t \<Rightarrow> kstate \<Rightarrow> status \<times> kstate" where
  "as_prepare_pte as vaddr s =
     (let index1 = drop_bit 22 (vaddr AND TOP_TEN);
          vaddr1 = as_pagetable (addrspace_heap s as) + index1 * 4
      in
      if load32 (mem s) vaddr1 = 0 then
        let (v, s1) = alloc_kpages 1 s;
            s2 = s1\<lparr>mem := store32 (mem s1) vaddr1 v\<rparr>
        in
        if load32 (mem s2) vaddr1 = 0 then (Err EFAULT, s2)
        else as_clear_pte vaddr1 vaddr (as_zero_region (load32 (mem s2) vaddr1) 1 s2)
      else as_clear_pte vaddr1 vaddr s)"

text \<open>The \<open>for (i = 0; i < npages; ++i)\<close> loop of \<open>as_define_region\<close>: \<open>n\<close> iterations
  remain.\<close>

fun as_define_region_pages :: "32 word \<Rightarrow> nat \<Rightarrow> vaddr_t \<Rightarrow> kstate \<Rightarrow> status \<times> kstate" where
  "as_define_region_pages as 0 vaddr s = (OK, s)"
| "as_define_region_pages as (Suc n) vaddr s =
     (case as_prepare_pte as vaddr s of
        (Err e, s1) \<Rightarrow> (Err e, s1)
      | (OK, s1) \<Rightarrow> as_define_region_pages as n (vaddr + PAGE_SIZE) s1)"

definition as_define_region ::
  "32 word \<Rightarrow> vaddr_t \<Rightarrow> 32 word \<Rightarrow> 32 word \<Rightarrow> 32 word \<Rightarrow> 32 word \<Rightarrow> kstate \<Rightarrow>
     (halt + status \<times> kstate) option" where
  "as_define_region as vaddr sz readable writeable executable s =
     (if as = 0 then Some (Inl KAssert)
      else
        let sz1 = sz + (vaddr AND NOT PAGE_FRAME);
            vaddr1 = vaddr AND PAGE_FRAME;
            sz2 = (sz1 + PAGE_SIZE - 1) AND PAGE_FRAME;
            npages = sz2 div PAGE_SIZE
        in
        if as_regions_start (addrspace_heap s as) = 0 then
          let (p, s1) = kmalloc s;
              s2 = set_addrspace as (\<lambda>a. a\<lparr>as_regions_start := p\<rparr>) s1
          in
          case as_init_region (as_regions_start (addrspace_heap s2 as)) vaddr1 npages
                 readable writeable executable s2 of
            Inl h \<Rightarrow> Some (Inl h)
          | Inr s3 \<Rightarrow> Some (Inr (as_define_region_pages as (unat npages) vaddr1 s3))
        else
          case as_last_region (as_regions_start (addrspace_heap s as)) s of
            None \<Rightarrow> None
          | Some ar \<Rightarrow>
              let (p, s1) = kmalloc s;
                  s2 = set_region ar (\<lambda>r. r\<lparr>as_next_region := p\<rparr>) s1
              in
              (case as_init_region (as_next_region (region_heap s2 ar)) vaddr1 npages
                      readable writeable executable s2 of
                 Inl h \<Rightarrow> Some (Inl h)
               | Inr s3 \<Rightarrow> Some (Inr (as_define_region_pages as (unat npages) vaddr1 s3))))"

text \<open>The loops of \<open>as_prepare_load\<close> and \<open>as_complete_load\<close> over the region list.\<close>

partial_function (option) as_prepare_load_loop :: "32 word \<Rightarrow> kstate \<Rightarrow> kstate option" where
  "as_prepare_load_loop s st =
     (if s = 0 then Some st
      else
        let permis = as_permissions (region_heap st s);
            st1 = set_region s (\<lambda>r. r\<lparr>as_permissions := push_bit 8 (as_permissions r)\<rparr>) st;
            st2 = set_region s
                    (\<lambda>r. r\<lparr>as_permissions := as_permissions r OR permis OR PF_W\<rparr>) st1
        in as_prepare_load_loop (as_next_region (region_heap st2 s)) st2)"

definition as_prepare_load :: "32 word \<Rightarrow> kstate \<Rightarrow> (halt + status \<times> kstate) option" where
  "as_prepare_load as st =
     (if as = 0 then Some (Inl KAssert)
      else if as_regions_start (addrspace_heap st as) = 0 then Some (Inl KAssert)
      else
        case as_prepare_load_loop (as_regions_start (addrspace_heap st as)) st of
          None \<Rightarrow> None
        | Some st1 \<Rightarrow> Some (Inr (OK, st1)))"

partial_function (option) as_complete_load_loop :: "32 word \<Rightarrow> kstate \<Rightarrow> kstate option" where
  "as_complete_load_loop s st =
     (if s = 0 then Some st
      else
        let st1 = set_region s (\<lambda>r. r\<lparr>as_permissions := drop_bit 8 (as_permissions r)\<rparr>) st
        in as_complete_load_loop (as_next_region (region_heap st1 s)) st1)"

definition as_complete_load :: "32 word \<Rightarrow> kstate \<Rightarrow> (halt + status \<times> kstate) option" where
  "as_complete_load as st =
     (if as = 0 then Some (Inl KAssert)
      else if as_regions_start (addrspace_heap st as) = 0 then Some (Inl KAssert)
      else
        case as_complete_load_loop (as_regions_start (addrspace_heap st as)) st of
          None \<Rightarrow> None
        | Some st1 \<Rightarrow> Some (Inr (OK, st1)))"

text \<open>The loop of \<open>as_define_stack\<close>: \<open>n\<close> iterations remain and \<open>i\<close> is the loop
  variable, so the page of iteration \<open>i\<close> is \<open>USERSTACK - i * PAGE_SIZE\<close>.\<close>

fun as_define_stack_loop :: "32 word \<Rightarrow> nat \<Rightarrow> nat \<Rightarrow> kstate \<Rightarrow> status \<times> kstate" where
  "as_define_stack_loop as 0 i s = (OK, s)"
| "as_define_stack_loop as (Suc n) i s =
     (let vaddr = USERSTACK - of_nat i * PAGE_SIZE in
      case as_prepare_pte as vaddr s of
        (Err e, s1) \<Rightarrow> (Err e, s1)
      | (OK, s1) \<Rightarrow> as_define_stack_loop as n (i + 1) s1)"

text \<open>\<open>as_define_stack as stackptr\<close>: the result holds the status, the value stored
  through \<open>stackptr\<close> (\<open>None\<close> when nothing is stored) and the new state.\<close>

definition as_define_stack ::
  "nat \<Rightarrow> 32 word \<Rightarrow> kstate \<Rightarrow> status \<times> 32 word option \<times> kstate" where
  "as_define_stack vm_stackpages as s =
     (case as_define_stack_loop as vm_stackpages 0 s of
        (Err e, s1) \<Rightarrow> (Err e, None, s1)
      | (OK, s1) \<Rightarrow> (OK, Some USERSTACK, s1))"


section \<open>Fault handler\<close>

text \<open>The TLB maps each of its \<open>NUM_TLB\<close> slots to an entry, a pair of the words
  \<open>entryhi\<close> and \<open>entrylo\<close>. \<open>tlb_read\<close>, \<open>tlb_write\<close> and \<open>tlb_random\<close> are the machine's operations
  on it: they are not among the sources and are modelled from the spec.\<close>

definition tlb_read :: "nat \<Rightarrow> kstate \<Rightarrow> 32 word \<times> 32 word" where
  "tlb_read i s = tlb s i"

definition tlb_write :: "32 word \<Rightarrow> 32 word \<Rightarrow> nat \<Rightarrow> kstate \<Rightarrow> kstate" where
  "tlb_write ehi elo i s = s\<lparr>tlb := (tlb s)(i := (ehi, elo))\<rparr>"

definition tlb_random :: "32 word \<Rightarrow> 32 word \<Rightarrow> kstate \<Rightarrow> kstate" where
  "tlb_random ehi elo s = s\<lparr>tlb := (tlb s)(tlb_random_slot s mod NUM_TLB := (ehi, elo))\<rparr>"

text \<open>The \<open>while (s != 0)\<close> loop of \<open>vm_fault\<close> over the region list. It returns the final
  values of \<open>faultadd\<close> and \<open>permis\<close>.\<close>

partial_function (option) vm_fault_regions ::
  "32 word \<Rightarrow> vaddr_t \<Rightarrow> kstate \<Rightarrow> (halt + vaddr_t \<times> 32 word) option" where
  "vm_fault_regions s faultaddress st =
     (if s = 0 then Some (Inr (0, 0))
      else if as_vbase (region_heap st s) = 0 then Some (Inl KAssert)
      else if as_npages (region_heap st s) = 0 then Some (Inl KAssert)
      else if as_vbase (region_heap st s) AND PAGE_FRAME \<noteq> as_vbase (region_heap st s)
        then Some (Inl KAssert)
      else
        let vbase = as_vbase (region_heap st s);
            vtop = vbase + as_npages (region_heap st s) * PAGE_SIZE
        in
        if faultaddress \<ge> vbase \<and> faultaddress < vtop
        then Some (Inr (faultaddress, as_permissions (region_heap st s)))
        else vm_fault_regions (as_next_region (region_heap st s)) faultaddress st)"

text \<open>The page-table part of \<open>vm_fault\<close>: it returns the value of \<open>paddr\<close> that goes into
  the TLB.\<close>

definition vm_fault_dirty :: "32 word \<Rightarrow> vaddr_t \<Rightarrow> paddr_t" where
  "vm_fault_dirty permis vaddr =
     (let paddr = KVADDR_TO_PADDR vaddr in
      if permis AND PF_W \<noteq> 0 then paddr OR TLBLO_DIRTY else paddr)"

definition vm_fault_pagetable ::
  "32 word \<Rightarrow> 32 word \<Rightarrow> vaddr_t \<Rightarrow> 32 word \<Rightarrow> kstate \<Rightarrow> halt + paddr_t \<times> kstate" where
  "vm_fault_pagetable pte_valid as faultaddress permis s =
     (let index1 = drop_bit 22 (faultaddress AND TOP_TEN);
          index2 = drop_bit 12 (faultaddress AND MID_TEN);
          vaddr1 = as_pagetable (addrspace_heap s as) + index1 * 4
      in
      if load32 (mem s) vaddr1 \<noteq> 0 then
        let vaddr2 = load32 (mem s) vaddr1 + index2 * 4 in
        if load32 (mem s) vaddr2 AND pte_valid \<noteq> 0 then
          let vaddr = load32 (mem s) vaddr2 AND PAGE_FRAME
          in Inr (vm_fault_dirty permis vaddr, s)
        else
          let (vaddr, s1) = alloc_kpages 1 s in
          if vaddr = 0 then Inl KAssert
          else
            let s2 = as_zero_region vaddr 1 s1;
                s3 = s2\<lparr>mem := store32 (mem s2) vaddr2
                                (load32 (mem s2) vaddr2 OR (vaddr OR pte_valid))\<rparr>
            in Inr (vm_fault_dirty permis vaddr, s3)
      else
        let (v, s1) = alloc_kpages 1 s;
            s2 = s1\<lparr>mem := store32 (mem s1) vaddr1 v\<rparr>
        in
        if load32 (mem s2) vaddr1 = 0 then Inl KAssert
        else
          let s3 = as_zero_region (load32 (mem s2) vaddr1) 1 s2;
              vaddr2 = load32 (mem s3) vaddr1 + index2 * 4;
              (vaddr, s4) = alloc_kpages 1 s3
          in
          if vaddr = 0 then Inl KAssert
          else
            let s5 = as_zero_region vaddr 1 s4;
                s6 = s5\<lparr>mem := store32 (mem s5) vaddr2
                                (load32 (mem s5) vaddr2 OR (vaddr OR pte_valid))\<rparr>
            in Inr (vm_fault_dirty permis vaddr, s6))"

text \<open>The \<open>for (i = 0; i < NUM_TLB; i++)\<close> loop of \<open>vm_fault\<close>: \<open>n\<close> iterations remain and
  \<open>i\<close> is the loop variable. \<open>Some\<close> is the \<open>return 0\<close> inside the loop, \<open>None\<close> the exit
  at \<open>i = NUM_TLB\<close>.\<close>

fun vm_fault_tlb_loop ::
  "nat \<Rightarrow> nat \<Rightarrow> vaddr_t \<Rightarrow> paddr_t \<Rightarrow> kstate \<Rightarrow> kstate option" where
  "vm_fault_tlb_loop 0 i faultaddress paddr s = None"
| "vm_fault_tlb_loop (Suc n) i faultaddress paddr s =
     (let (ehi, elo) = tlb_read i s in
      if elo AND TLBLO_VALID \<noteq> 0 then vm_fault_tlb_loop n (i + 1) faultaddress paddr s
      else Some (tlb_write faultaddress (paddr OR TLBLO_VALID) i s))"

definition vm_fault_tlb :: "vaddr_t \<Rightarrow> paddr_t \<Rightarrow> kstate \<Rightarrow> kstate" where
  "vm_fault_tlb faultaddress paddr s =
     (case vm_fault_tlb_loop NUM_TLB 0 faultaddress paddr s of
        Some s1 \<Rightarrow> s1
      | None \<Rightarrow> tlb_random faultaddress (paddr OR TLBLO_VALID) s)"

definition vm_fault ::
  "32 word \<Rightarrow> nat \<Rightarrow> int \<Rightarrow> vaddr_t \<Rightarrow> kstate \<Rightarrow> (halt + status \<times> kstate) option" where
  "vm_fault pte_valid vm_stackpages faulttype faultaddress0 st =
     (if faulttype = VM_FAULT_READONLY then Some (Inr (Err EFAULT, st))
      else if faulttype \<noteq> VM_FAULT_READ \<and> faulttype \<noteq> VM_FAULT_WRITE
        then Some (Inr (Err EINVAL, st))
      else
        let as = curthread_addrspace st in
        if as = 0 then Some (Inr (Err EFAULT, st))
        else
          let faultaddress = faultaddress0 AND PAGE_FRAME in
          if as_regions_start (addrspace_heap st as) = 0 then Some (Inl KAssert)
          else
            case vm_fault_regions (as_regions_start (addrspace_heap st as)) faultaddress st of
              None \<Rightarrow> None
            | Some (Inl h) \<Rightarrow> Some (Inl h)
            | Some (Inr (faultadd0, permis0)) \<Rightarrow>
                let vtop = USERSTACK;
                    vbase = vtop - of_nat vm_stackpages * PAGE_SIZE;
                    in_stack = (faultadd0 = 0 \<and> faultaddress \<ge> vbase \<and> faultaddress < vtop);
                    faultadd = (if in_stack then faultaddress else faultadd0);
                    permis = (if in_stack then permis0 OR (PF_W OR PF_R) else permis0)
                in
                if faultadd = 0 then Some (Inr (Err EFAULT, st))
                else
                  case vm_fault_pagetable pte_valid as faultaddress permis st of
                    Inl h \<Rightarrow> Some (Inl h)
                  | Inr (paddr, st1) \<Rightarrow>
                      Some (Inr (OK, vm_fault_tlb faultaddress paddr st1)))"


section \<open>Specification predicates\<close>

text \<open>A TLB entry is valid when the valid bit of its \<open>entrylo\<close> word is set.\<close>

definition tlb_valid :: "32 word \<times> 32 word \<Rightarrow> bool" where
  "tlb_valid e \<longleftrightarrow> snd e AND TLBLO_VALID \<noteq> 0"

text \<open>The address of the frame-table entry of the frame at \<open>paddr\<close>, as \<open>getppages\<close> and
  \<open>freeppages\<close> compute it.\<close>

definition fte_of :: "kstate \<Rightarrow> paddr_t \<Rightarrow> 32 word" where
  "fte_of s paddr = frame_table_entry s ((paddr - frametop s) div PAGE_SIZE)"

text \<open>\<open>free_list s p fs\<close>: following the \<open>next_freeframe\<close> fields from \<open>p\<close> visits exactly
  the frames \<open>fs\<close>, in this order, and then reaches 0.\<close>

fun free_list :: "kstate \<Rightarrow> paddr_t \<Rightarrow> paddr_t list \<Rightarrow> bool" where
  "free_list s p [] \<longleftrightarrow> p = 0"
| "free_list s p (f # fs) \<longleftrightarrow>
     p = f \<and> f \<noteq> 0 \<and> free_list s (load32 (mem s) (fte_of s f)) fs"

text \<open>The frame table is live and its free list is the list \<open>fs\<close> of distinct,
  page-aligned frames of the direct-mapped physical memory.\<close>

definition wf_freelist :: "kstate \<Rightarrow> paddr_t list \<Rightarrow> bool" where
  "wf_freelist s fs \<longleftrightarrow>
     frame_table s \<noteq> 0 \<and> frame_table s AND 3 = 0 \<and>
     frametop s AND PAGE_FRAME = frametop s \<and>
     free_list s (freeframe s) fs \<and> distinct fs \<and>
     (\<forall>f \<in> set fs. f AND PAGE_FRAME = f \<and> f < MIPS_KSEG0)"

text \<open>\<open>k\<close> calls of \<open>alloc_kpages(1)\<close> in a row: the addresses returned, and the final
  state.\<close>

fun alloc_seq :: "nat \<Rightarrow> kstate \<Rightarrow> vaddr_t list \<times> kstate" where
  "alloc_seq 0 s = ([], s)"
| "alloc_seq (Suc k) s =
     (let (v, s1) = alloc_kpages 1 s;
          (vs, s2) = alloc_seq k s1
      in (v # vs, s2))"

text \<open>\<open>region_list s p rs\<close>: following the \<open>as_next_region\<close> fields from \<open>p\<close> visits exactly
  the nodes \<open>rs\<close>, in this order, and then reaches the null pointer.\<close>

fun region_list :: "kstate \<Rightarrow> 32 word \<Rightarrow> 32 word list \<Rightarrow> bool" where
  "region_list s p [] \<longleftrightarrow> p = 0"
| "region_list s p (r # rs) \<longleftrightarrow>
     p = r \<and> r \<noteq> 0 \<and> region_list s (as_next_region (region_heap s r)) rs"

text \<open>The state in which \<open>f\<close> has been applied to each of the region nodes \<open>rs\<close>.\<close>

definition map_regions :: "(as_region \<Rightarrow> as_region) \<Rightarrow> 32 word list \<Rightarrow> kstate \<Rightarrow> kstate" where
  "map_regions f rs s =
     s\<lparr>region_heap := (\<lambda>r. if r \<in> set rs then f (region_heap s r) else region_heap s r)\<rparr>"

text \<open>What one iteration of \<open>as_prepare_load\<close> and of \<open>as_complete_load\<close> does to a region
  node.\<close>

definition prepare_region :: "as_region \<Rightarrow> as_region" where
  "prepare_region r =
     r\<lparr>as_permissions := push_bit 8 (as_permissions r) OR as_permissions r OR PF_W\<rparr>"

definition complete_region :: "as_region \<Rightarrow> as_region" where
  "complete_region r = r\<lparr>as_permissions := drop_bit 8 (as_permissions r)\<rparr>"

text \<open>The page of the frame-table entry of the frame at \<open>f\<close>.\<close>

definition fte_page :: "kstate \<Rightarrow> paddr_t \<Rightarrow> 32 word" where
  "fte_page s f = fte_of s f AND PAGE_FRAME"

text \<open>\<open>frames_sep s fs U\<close>: the free frames \<open>fs\<close> and the pages that hold their frame-table
  entries are apart from the pages \<open>U\<close> that are in use, and no frame-table entry of a free
  frame lies in a free frame.\<close>

definition frames_sep :: "kstate \<Rightarrow> paddr_t list \<Rightarrow> 32 word set \<Rightarrow> bool" where
  "frames_sep s fs U \<longleftrightarrow>
     (\<forall>f \<in> set fs. PADDR_TO_KVADDR f \<notin> U \<and> fte_page s f \<notin> U \<and>
        (\<forall>g \<in> set fs. fte_page s g \<noteq> PADDR_TO_KVADDR f))"

definition alloc_inv :: "kstate \<Rightarrow> paddr_t list \<Rightarrow> 32 word set \<Rightarrow> bool" where
  "alloc_inv s fs U \<longleftrightarrow> wf_freelist s fs \<and> frames_sep s fs U"

text \<open>The two indices of a virtual address into the page table, the first-level entry of
  an address in the table with root \<open>R\<close>, and its second-level entry.\<close>

definition pt_index1 :: "vaddr_t \<Rightarrow> 32 word" where
  "pt_index1 v = drop_bit 22 (v AND TOP_TEN)"

definition pt_index2 :: "vaddr_t \<Rightarrow> 32 word" where
  "pt_index2 v = drop_bit 12 (v AND MID_TEN)"

definition l1_entry :: "kstate \<Rightarrow> vaddr_t \<Rightarrow> vaddr_t \<Rightarrow> 32 word" where
  "l1_entry s R v = load32 (mem s) (R + pt_index1 v * 4)"

definition l2_entry :: "kstate \<Rightarrow> vaddr_t \<Rightarrow> vaddr_t \<Rightarrow> 32 word" where
  "l2_entry s R v = load32 (mem s) (l1_entry s R v + pt_index2 v * 4)"

text \<open>\<open>pt_wf s R U\<close>: the root \<open>R\<close> of a page table is a page in use, and so is every
  second-level table that the root refers to.\<close>

definition pt_wf :: "kstate \<Rightarrow> vaddr_t \<Rightarrow> 32 word set \<Rightarrow> bool" where
  "pt_wf s R U \<longleftrightarrow>
     R AND PAGE_FRAME = R \<and> R \<in> U \<and>
     (\<forall>i < 1024. load32 (mem s) (R + i * 4) \<noteq> 0 \<longrightarrow>
        load32 (mem s) (R + i * 4) AND PAGE_FRAME = load32 (mem s) (R + i * 4) \<and>
        load32 (mem s) (R + i * 4) \<in> U \<and> load32 (mem s) (R + i * 4) \<noteq> R)"

text \<open>The second-level table for \<open>v\<close> is present and the entry of \<open>v\<close> in it is 0.\<close>

definition pte_cleared :: "kstate \<Rightarrow> vaddr_t \<Rightarrow> vaddr_t \<Rightarrow> bool" where
  "pte_cleared s R v \<longleftrightarrow> l1_entry s R v \<noteq> 0 \<and> l2_entry s R v = 0"

text \<open>The state after \<open>getppages\<close> has taken the frame \<open>f\<close> from the head of the free
  list.\<close>

definition pop_frame :: "paddr_t \<Rightarrow> kstate \<Rightarrow> kstate" where
  "pop_frame f s =
     s\<lparr>freeframe := load32 (mem s) (fte_of s f), mem := store32 (mem s) (fte_of s f) 0\<rparr>"

text \<open>The number of pages that \<open>as_define_region\<close> computes for a region of \<open>sz\<close> bytes at
  \<open>vaddr\<close>.\<close>

definition region_npages :: "vaddr_t \<Rightarrow> 32 word \<Rightarrow> 32 word" where
  "region_npages vaddr sz =
     ((sz + (vaddr AND NOT PAGE_FRAME) + PAGE_SIZE - 1) AND PAGE_FRAME) div PAGE_SIZE"

text \<open>Two states with the same memory and the same frame-table variables.\<close>

definition same_frames :: "kstate \<Rightarrow> kstate \<Rightarrow> bool" where
  "same_frames s s' \<longleftrightarrow>
     mem s' = mem s \<and> frame_table s' = frame_table s \<and> frametop s' = frametop s \<and>
     freeframe s' = freeframe s"

text \<open>The stack window as \<open>vm_fault\<close> tests it: \<open>vbase \<le> a < vtop\<close> with \<open>vtop = USERSTACK\<close>
  and \<open>vbase = vtop - VM_STACKPAGES * PAGE_SIZE\<close>.\<close>

definition stack_window :: "nat \<Rightarrow> vaddr_t \<Rightarrow> bool" where
  "stack_window vm_stackpages a \<longleftrightarrow>
     a \<ge> USERSTACK - of_nat vm_stackpages * PAGE_SIZE \<and> a < USERSTACK"

text \<open>\<open>same_on W m m'\<close>: the memories \<open>m\<close> and \<open>m'\<close> agree on every byte of the pages
  \<open>W\<close>. \<open>frame_copy m m' src dst\<close>: the \<open>PAGE_SIZE\<close> bytes at \<open>dst\<close> in \<open>m'\<close> are the bytes at
  \<open>src\<close> in \<open>m\<close>.\<close>

definition same_on :: "32 word set \<Rightarrow> memory \<Rightarrow> memory \<Rightarrow> bool" where
  "same_on W m m' \<longleftrightarrow> (\<forall>x. x AND PAGE_FRAME \<in> W \<longrightarrow> m' x = m x)"

definition frame_copy :: "memory \<Rightarrow> memory \<Rightarrow> vaddr_t \<Rightarrow> vaddr_t \<Rightarrow> bool" where
  "frame_copy m m' src dst \<longleftrightarrow> (\<forall>d < 4096. m' (dst + d) = m (src + d))"

text \<open>\<open>table_copied pv G m m' To Tn\<close>: the second-level table at \<open>Tn\<close> in \<open>m'\<close> is the copy
  that \<open>as_copy\<close> makes of the table at \<open>To\<close> in \<open>m\<close>. For every valid entry of the old
  table the new table holds, with the valid bit, a frame of \<open>G\<close> whose bytes are those of
  the old frame; every other entry of the new table is 0.\<close>

definition table_copied ::
  "32 word \<Rightarrow> paddr_t set \<Rightarrow> memory \<Rightarrow> memory \<Rightarrow> vaddr_t \<Rightarrow> vaddr_t \<Rightarrow> bool" where
  "table_copied pv G m m' To Tn \<longleftrightarrow>
     (\<forall>q < 1024.
        if load32 m (To + of_nat q * 4) AND pv \<noteq> 0
        then \<exists>g \<in> G. load32 m' (Tn + of_nat q * 4) = PADDR_TO_KVADDR g OR pv \<and>
               frame_copy m m' (load32 m (To + of_nat q * 4) AND PAGE_FRAME) (PADDR_TO_KVADDR g)
        else load32 m' (Tn + of_nat q * 4) = 0)"
section \<open>Example states\<close>

text \<open>A machine whose usable physical memory is the four frames from \<open>0x100000\<close> to
  \<open>0x104000\<close>, all bytes zero, before \<open>frametable_bootstrap\<close>.\<close>

definition ex_boot :: kstate where
  "ex_boot =
     \<lparr>mem = (\<lambda>x. 0), frame_table = 0, frametop = 0, freeframe = 0,
      firstpaddr = 0x100000, lastpaddr = 0x104000,
      region_heap = (\<lambda>p. \<lparr>as_vbase = 0, as_npages = 0, as_permissions = 0, as_next_region = 0\<rparr>),
      addrspace_heap = (\<lambda>p. \<lparr>as_pagetable = 0, as_regions_start = 0\<rparr>),
      kmalloc_pool = [0x80004000, 0x80004010, 0x80004020, 0x80004030],
      tlb = (\<lambda>i. (0, 0)), tlb_random_slot = 0, curthread_addrspace = 0\<rparr>"

text \<open>The same machine after \<open>frametable_bootstrap\<close>: the first frame holds the frame
  table, the other three are on the free list.\<close>

definition ex_mem :: memory where
  "ex_mem = store32 (store32 (store32 (\<lambda>x. 0) 0x80100000 0) 0x80100004 0x102000)
              0x80100008 0x103000"

definition ex_live :: kstate where
  "ex_live = ex_boot\<lparr>mem := ex_mem, frame_table := 0x80100000, frametop := 0x100000,
                      freeframe := 0x101000\<rparr>"

text \<open>The machine of \<open>ex_boot\<close> with one word of its memory not zero before
  \<open>frametable_bootstrap\<close>: the word at \<open>0x8010000c\<close>, which is the frame-table entry of the
  last frame \<open>0x103000\<close>, holds \<open>0x101000\<close>. \<open>ex_stale\<close> is that machine after
  \<open>frametable_bootstrap\<close>.\<close>

definition ex_boot_stale :: kstate where
  "ex_boot_stale = ex_boot\<lparr>mem := store32 (\<lambda>x. 0) 0x8010000c 0x101000\<rparr>"

definition ex_stale :: kstate where
  "ex_stale =
     ex_boot\<lparr>mem := store32 (store32 (store32 (store32 (\<lambda>x. 0) 0x8010000c 0x101000)
                        0x80100000 0) 0x80100004 0x102000) 0x80100008 0x103000,
              frame_table := 0x80100000, frametop := 0x100000, freeframe := 0x101000\<rparr>"

text \<open>A machine with sixteen frames from \<open>0x100000\<close> and one process. The first frame
  holds the frame table. The address space of the process is the struct at \<open>0x80004000\<close>;
  its region list is the one node at \<open>0x80004010\<close>, two pages from \<open>0x400000\<close>. Its page
  table has the root frame \<open>0x80101000\<close> and the second-level table \<open>0x80102000\<close>, in
  which the first page of the region is mapped to the frame \<open>0x80103000\<close> (with the valid
  bit taken to be bit 0). That frame starts with the byte \<open>0x2a\<close>. The frames \<open>0x104000\<close> to
  \<open>0x107000\<close> are on the free list.\<close>

definition ex_proc_mem :: memory where
  "ex_proc_mem =
     (store32 (store32 (store32 (store32 (store32 (\<lambda>x. 0)
        0x80100010 0x105000) 0x80100014 0x106000) 0x80100018 0x107000)
        0x80101004 0x80102000) 0x80102000 0x80103001)
     (0x80103000 := 0x2a)"

definition ex_proc :: kstate where
  "ex_proc =
     \<lparr>mem = ex_proc_mem, frame_table = 0x80100000, frametop = 0x100000, freeframe = 0x104000,
      firstpaddr = 0x100000, lastpaddr = 0x110000,
      region_heap =
        (\<lambda>p. \<lparr>as_vbase = 0, as_npages = 0, as_permissions = 0, as_next_region = 0\<rparr>)
        (0x80004010 :=
           \<lparr>as_vbase = 0x400000, as_npages = 2, as_permissions = 5, as_next_region = 0\<rparr>),
      addrspace_heap =
        (\<lambda>p. \<lparr>as_pagetable = 0, as_regions_start = 0\<rparr>)
        (0x80004000 := \<lparr>as_pagetable = 0x80101000, as_regions_start = 0x80004010\<rparr>),
      kmalloc_pool = [0x80004020, 0x80004030, 0x80004040, 0x80004050],
      tlb = (\<lambda>i. (0, 0)), tlb_random_slot = 0, curthread_addrspace = 0x80004000\<rparr>"

text \<open>The machine of \<open>ex_proc\<close> after \<open>as_define_region\<close> of two pages at the virtual
  address 0, readable and writeable.\<close>

definition ex_zero_region :: kstate where
  "ex_zero_region =
     (case as_define_region 0x80004000 0 (2 * PAGE_SIZE) 1 1 0 ex_proc of
        Some (Inr (st, s)) \<Rightarrow> s
      | _ \<Rightarrow> ex_proc)"

text \<open>The machine of \<open>ex_proc\<close> with one free frame only, \<open>0x104000\<close> (its frame-table
  entry holds 0), and the same machine with no free frame.\<close>

definition ex_proc_low :: kstate where
  "ex_proc_low = ex_proc\<lparr>mem := store32 (mem ex_proc) 0x80100010 0\<rparr>"

definition ex_proc_full :: kstate where
  "ex_proc_full = ex_proc\<lparr>freeframe := 0\<rparr>"
section \<open>Words, pages and memory\<close>

lemma unat32: "unat (a :: 32 word) < 4294967296"
  using unsigned_less [of a, where 'a = nat] by simp

lemma al4: "(a :: 32 word) AND 3 = 0 \<longleftrightarrow> 4 dvd unat a"
  using and_mask_dvd_nat [of 2 a] by (simp add: mask_eq_exp_minus_1)

lemma unat_sub32:
  "unat (a - b :: 32 word) =
     (if unat b \<le> unat a then unat a - unat b else unat a + 4294967296 - unat b)"
  by (simp add: unat_sub_if_size word_size)

lemma unat_add32:
  "unat (a + b :: 32 word) =
     (if unat a + unat b < 4294967296 then unat a + unat b
      else unat a + unat b - 4294967296)"
  using unat32 [of a] unat32 [of b]
  by (simp add: unat_word_ariths mod_if)

lemma PAGE_FRAME_mask: "PAGE_FRAME = NOT (mask 12)"
  by (simp add: PAGE_FRAME_def mask_eq_exp_minus_1)

lemma lt4096_iff: "(d :: 32 word) < 4096 \<longleftrightarrow> d AND PAGE_FRAME = 0"
proof
  assume "d < 4096"
  then have "d AND mask 12 = d" by (intro less_mask_eq) simp
  then have "d AND PAGE_FRAME = (d AND mask 12) AND NOT (mask 12)"
    by (simp add: PAGE_FRAME_mask)
  also have "\<dots> = 0" by (rule bit_word_eqI) (auto simp: bit_simps)
  finally show "d AND PAGE_FRAME = 0" .
next
  assume a: "d AND PAGE_FRAME = 0"
  have "d = (d AND mask 12) OR (d AND NOT (mask 12))"
    by (rule bit_word_eqI) (auto simp: bit_simps)
  then have "d = d AND mask 12" using a by (simp add: PAGE_FRAME_mask)
  moreover have "d AND mask 12 < 2 ^ 12"
    by (rule and_mask_less_size) (simp add: word_size)
  ultimately show "d < 4096" by simp
qed

lemma page_add:
  assumes "f AND PAGE_FRAME = f" "d < 4096"
  shows "(f + d) AND PAGE_FRAME = f"
proof -
  have d: "d AND PAGE_FRAME = 0" using assms(2) by (simp add: lt4096_iff)
  have "f AND d = (f AND PAGE_FRAME) AND (d AND mask 12)"
    using assms by (simp add: less_mask_eq)
  also have "\<dots> = 0"
    unfolding PAGE_FRAME_mask by (rule bit_word_eqI) (auto simp: bit_simps)
  finally have "f + d = f OR d" by (rule disjunctive_add_eq_or)
  then have "(f + d) AND PAGE_FRAME = (f AND PAGE_FRAME) OR (d AND PAGE_FRAME)"
    by (simp add: bit.conj_disj_distrib2)
  then show ?thesis using assms(1) d by simp
qed

lemma page_sub:
  assumes "f AND PAGE_FRAME = f"
  shows "(x - f < 4096) = (x AND PAGE_FRAME = f)"
proof
  assume "x - f < 4096"
  from page_add [OF assms this] show "x AND PAGE_FRAME = f" by simp
next
  assume e: "x AND PAGE_FRAME = f"
  have "x = (x AND PAGE_FRAME) + (x AND mask 12)"
    unfolding PAGE_FRAME_mask
    by (subst disjunctive_add_eq_or; rule bit_word_eqI) (auto simp: bit_simps)
  then have "x = f + (x AND mask 12)" using e by simp
  then have "x - f = x AND mask 12" by (metis add_diff_cancel_left')
  moreover have "x AND mask 12 < 2 ^ 12"
    by (rule and_mask_less_size) (simp add: word_size)
  ultimately show "x - f < 4096" by simp
qed

lemma aligned4_dist:
  assumes "(a::32 word) AND 3 = 0" "b AND 3 = 0" "a \<noteq> b"
  shows "4 \<le> a - b"
proof -
  obtain k where k: "unat a = 4 * k" using assms(1) by (auto simp: al4 dvd_def)
  obtain l where l: "unat b = 4 * l" using assms(2) by (auto simp: al4 dvd_def)
  have "k \<noteq> l" using assms(3) k l by (auto simp: word_unat_eq_iff)
  then show ?thesis
    using unat32 [of a] unat32 [of b] k l
    unfolding word_le_nat_alt unat_sub32 by auto
qed

lemma load32_store32_same: "load32 (store32 m a v) a = v"
proof -
  have d: "a + 1 \<noteq> a" "a + 2 \<noteq> a" "a + 3 \<noteq> a" "a + 2 \<noteq> a + 1" "a + 3 \<noteq> a + 1"
    "a + 3 \<noteq> a + 2"
    by simp_all
  have "bit (load32 (store32 m a v) a) n = bit v n" for n
    unfolding load32_def store32_def
    apply (simp add: d bit_simps)
    apply (cases "n < 8"; cases "n < 16"; cases "n < 24"; cases "n < 32")
    apply (auto simp: bit_simps not_less dest: bit_imp_le_length)
    done
  then show ?thesis by (rule bit_eqI)
qed

lemma store32_other:
  assumes "4 \<le> x - a"
  shows "store32 m a v x = m x"
proof -
  have "x - a \<noteq> 0" "x - a \<noteq> 1" "x - a \<noteq> 2" "x - a \<noteq> 3"
    using assms by (auto simp: word_le_nat_alt)
  then have "x \<noteq> a" "x \<noteq> a + 1" "x \<noteq> a + 2" "x \<noteq> a + 3"
    by auto
  then show ?thesis by (simp add: store32_def)
qed

lemma word_dist_add:
  assumes "4 \<le> (b :: 32 word) - a" "4 \<le> a - b" "unat k < 4"
  shows "4 \<le> b + k - a"
  using assms unat32[of a] unat32[of b]
  unfolding word_le_nat_alt unat_sub32 unat_add32
  by (auto split: if_splits)

lemma load32_eqI:
  "m a = m' a \<Longrightarrow> m (a + 1) = m' (a + 1) \<Longrightarrow> m (a + 2) = m' (a + 2) \<Longrightarrow>
   m (a + 3) = m' (a + 3) \<Longrightarrow> load32 m a = load32 m' a"
  by (simp add: load32_def)

lemma load32_store32_disj:
  assumes "4 \<le> b - a" "4 \<le> a - b"
  shows "load32 (store32 m a v) b = load32 m b"
proof (rule load32_eqI)
  show "store32 m a v b = m b" using assms by (simp add: store32_other)
  show "store32 m a v (b + 1) = m (b + 1)"
    using word_dist_add [OF assms, of 1] by (simp add: store32_other)
  show "store32 m a v (b + 2) = m (b + 2)"
    using word_dist_add [OF assms, of 2] by (simp add: store32_other)
  show "store32 m a v (b + 3) = m (b + 3)"
    using word_dist_add [OF assms, of 3] by (simp add: store32_other)
qed

lemma load32_store32_aligned:
  "a AND 3 = 0 \<Longrightarrow> b AND 3 = 0 \<Longrightarrow> a \<noteq> b \<Longrightarrow> load32 (store32 m a v) b = load32 m b"
  by (simp add: load32_store32_disj aligned4_dist)

lemma pa_dvd: "(x :: 32 word) AND PAGE_FRAME = x \<longleftrightarrow> 4096 dvd unat x"
proof -
  have "x AND PAGE_FRAME = x \<longleftrightarrow> x AND mask 12 = 0"
    unfolding PAGE_FRAME_mask
    by (auto simp: bit_eq_iff bit_simps)
  then show ?thesis using and_mask_dvd_nat [of 12 x] by simp
qed

lemma unat_div4096: "unat ((x :: 32 word) div PAGE_SIZE) = unat x div 4096"
  by (simp add: PAGE_SIZE_def unat_div)

lemma unat_mul4:
  assumes "unat (i :: 32 word) < 1073741824"
  shows "unat (i * 4) = unat i * 4"
proof -
  have "unat i * unat (4 :: 32 word) < 2 ^ LENGTH(32)" using assms by simp
  then have "unat (i * 4) = unat i * unat (4 :: 32 word)" by (rule unat_mult_lem [THEN iffD1])
  then show ?thesis by simp
qed

lemma unat_frame_index: "unat (((x :: 32 word) div PAGE_SIZE) * 4) = unat x div 4096 * 4"
proof -
  have "unat x div 4096 < 1073741824" using unat32 [of x] by simp
  then show ?thesis by (simp add: unat_mul4 unat_div4096)
qed

lemma frame_index_inj:
  assumes "(x :: 32 word) AND PAGE_FRAME = x" "y AND PAGE_FRAME = y" "x \<noteq> y"
  shows "(x div PAGE_SIZE) * 4 \<noteq> (y div PAGE_SIZE) * 4"
proof -
  obtain k where k: "unat x = 4096 * k" using assms(1) by (auto simp: pa_dvd dvd_def)
  obtain l where l: "unat y = 4096 * l" using assms(2) by (auto simp: pa_dvd dvd_def)
  have "k \<noteq> l" using assms(3) k l by (auto simp: word_unat_eq_iff)
  then show ?thesis by (simp add: word_unat_eq_iff unat_frame_index k l)
qed

lemma frame_index_al4: "((x :: 32 word) div PAGE_SIZE) * 4 AND 3 = 0"
  by (simp add: al4 unat_frame_index)

lemma al4_int: "(a :: 32 word) AND 3 = 0 \<longleftrightarrow> 4 dvd uint a"
  using and_mask_dvd [of 2 a] by (simp add: mask_eq_exp_minus_1)

lemma pa_int: "(x :: 32 word) AND PAGE_FRAME = x \<longleftrightarrow> 4096 dvd uint x"
proof -
  have "x AND PAGE_FRAME = x \<longleftrightarrow> x AND mask 12 = 0"
    unfolding PAGE_FRAME_mask
    by (auto simp: bit_eq_iff bit_simps)
  then show ?thesis using and_mask_dvd [of 12 x] by simp
qed

lemma aligned4_add: "(a :: 32 word) AND 3 = 0 \<Longrightarrow> b AND 3 = 0 \<Longrightarrow> (a + b) AND 3 = 0"
  unfolding al4_int by (simp add: uint_word_ariths dvd_mod_iff)

lemma page_aligned_sub:
  "(a :: 32 word) AND PAGE_FRAME = a \<Longrightarrow> b AND PAGE_FRAME = b \<Longrightarrow> (a - b) AND PAGE_FRAME = a - b"
  unfolding pa_int by (simp add: uint_word_ariths dvd_mod_iff)

lemma page_aligned_add:
  "(a :: 32 word) AND PAGE_FRAME = a \<Longrightarrow> b AND PAGE_FRAME = b \<Longrightarrow> (a + b) AND PAGE_FRAME = a + b"
  unfolding pa_int by (simp add: uint_word_ariths dvd_mod_iff)

lemma page_aligned_al4: "(a :: 32 word) AND PAGE_FRAME = a \<Longrightarrow> a AND 3 = 0"
  unfolding pa_int al4_int by (rule dvd_trans [of 4 4096]) simp_all

lemma fte_of_upd [simp]:
  "fte_of (s\<lparr>mem := m\<rparr>) f = fte_of s f"
  "fte_of (s\<lparr>freeframe := p\<rparr>) f = fte_of s f"
  by (simp_all add: fte_of_def frame_table_entry_def)

lemma fte_of_al4: "frame_table s AND 3 = 0 \<Longrightarrow> fte_of s f AND 3 = 0"
  unfolding fte_of_def frame_table_entry_def
  by (rule aligned4_add) (simp_all add: frame_index_al4)

lemma fte_of_inj:
  assumes "frametop s AND PAGE_FRAME = frametop s" "f AND PAGE_FRAME = f" "g AND PAGE_FRAME = g"
    "f \<noteq> g"
  shows "fte_of s f \<noteq> fte_of s g"
proof -
  have "f - frametop s \<noteq> g - frametop s" using assms(4) by simp
  then have "((f - frametop s) div PAGE_SIZE) * 4 \<noteq> ((g - frametop s) div PAGE_SIZE) * 4"
    using assms by (intro frame_index_inj page_aligned_sub)
  then show ?thesis by (simp add: fte_of_def frame_table_entry_def)
qed

lemma free_list_store:
  assumes "free_list s p fs" "\<forall>f \<in> set fs. load32 (store32 (mem s) e v) (fte_of s f) = load32 (mem s) (fte_of s f)"
  shows "free_list (s\<lparr>mem := store32 (mem s) e v\<rparr>) p fs"
  using assms by (induction fs arbitrary: p) auto

lemma fte_of_cong:
  "frame_table s' = frame_table s \<Longrightarrow> frametop s' = frametop s \<Longrightarrow> fte_of s' f = fte_of s f"
  by (simp add: fte_of_def frame_table_entry_def)

lemma free_list_cong:
  assumes "mem s' = mem s" "frame_table s' = frame_table s" "frametop s' = frametop s"
  shows "free_list s' p fs = free_list s p fs"
proof -
  have "fte_of s' f = fte_of s f" for f
    using assms by (simp add: fte_of_def frame_table_entry_def)
  then show ?thesis using assms(1) by (induction fs arbitrary: p) auto
qed

lemma getppages_pop:
  assumes "frame_table s \<noteq> 0" "freeframe s \<noteq> 0" "n \<le> 1"
  shows "getppages n s =
           (freeframe s,
            s\<lparr>freeframe := load32 (mem s) (fte_of s (freeframe s)),
              mem := store32 (mem s) (fte_of s (freeframe s)) 0\<rparr>)"
  using assms by (simp add: getppages_def Let_def fte_of_def)

lemma wf_freelist_Nil: "wf_freelist s [] \<Longrightarrow> alloc_kpages 1 s = (0, s)"
  by (simp add: wf_freelist_def alloc_kpages_def getppages_def)

lemma wf_freelist_Cons:
  assumes "wf_freelist s (f # fs)"
  shows "alloc_kpages 1 s =
           (PADDR_TO_KVADDR f,
            s\<lparr>freeframe := load32 (mem s) (fte_of s f), mem := store32 (mem s) (fte_of s f) 0\<rparr>)"
    and "wf_freelist (s\<lparr>freeframe := load32 (mem s) (fte_of s f),
                       mem := store32 (mem s) (fte_of s f) 0\<rparr>) fs"
proof -
  from assms have ft: "frame_table s \<noteq> 0" "frame_table s AND 3 = 0"
    "frametop s AND PAGE_FRAME = frametop s"
    and hd: "freeframe s = f" "f \<noteq> 0"
    and tl: "free_list s (load32 (mem s) (fte_of s f)) fs"
    and d: "f \<notin> set fs" "distinct fs"
    and al: "f AND PAGE_FRAME = f" "\<forall>g \<in> set fs. g AND PAGE_FRAME = g \<and> g < MIPS_KSEG0"
    by (auto simp: wf_freelist_def)
  show "alloc_kpages 1 s =
           (PADDR_TO_KVADDR f,
            s\<lparr>freeframe := load32 (mem s) (fte_of s f), mem := store32 (mem s) (fte_of s f) 0\<rparr>)"
    using ft hd by (simp add: alloc_kpages_def getppages_pop)
  have "\<forall>g \<in> set fs. load32 (store32 (mem s) (fte_of s f) 0) (fte_of s g) = load32 (mem s) (fte_of s g)"
  proof
    fix g assume g: "g \<in> set fs"
    with d al have "g \<noteq> f" "g AND PAGE_FRAME = g" by auto
    with ft al have "fte_of s f \<noteq> fte_of s g" by (intro fte_of_inj) auto
    with ft show "load32 (store32 (mem s) (fte_of s f) 0) (fte_of s g) = load32 (mem s) (fte_of s g)"
      by (intro load32_store32_aligned fte_of_al4)
  qed
  with tl have "free_list (s\<lparr>mem := store32 (mem s) (fte_of s f) 0\<rparr>) (load32 (mem s) (fte_of s f)) fs"
    by (rule free_list_store)
  then have "free_list (s\<lparr>freeframe := load32 (mem s) (fte_of s f), mem := store32 (mem s) (fte_of s f) 0\<rparr>) (load32 (mem s) (fte_of s f)) fs"
    by (subst free_list_cong [where s = "s\<lparr>mem := store32 (mem s) (fte_of s f) 0\<rparr>"]) simp_all
  with ft d al show "wf_freelist (s\<lparr>freeframe := load32 (mem s) (fte_of s f),
                       mem := store32 (mem s) (fte_of s f) 0\<rparr>) fs"
    by (simp add: wf_freelist_def)
qed

lemma frametable_bootstrap_loop_numeral:
  "frametable_bootstrap_loop (numeral k) i entry_num p s =
     (if i < entry_num then
        frametable_bootstrap_loop (pred_numeral k) (i + 1) entry_num (p + 4)
          (s\<lparr>mem := store32 (mem s) p 0\<rparr>)
      else
        frametable_bootstrap_loop (pred_numeral k) (i + 1) entry_num (p + 4)
          (s\<lparr>mem := store32 (mem s) p (frametop s + (i + 1) * PAGE_SIZE)\<rparr>))"
  by (simp only: numeral_eq_Suc frametable_bootstrap_loop.simps Let_def)

lemma ex_bootstrap: "frametable_bootstrap ex_boot = Inr ex_live"
  apply (simp add: frametable_bootstrap_def ram_getsize_def ex_boot_def
      PAGE_FRAME_def PAGE_SIZE_def ROUNDUP_def PADDR_TO_KVADDR_def MIPS_KSEG0_def Let_def)
  apply (simp add: frametable_bootstrap_loop_numeral PAGE_SIZE_def)
  apply (simp add: ex_live_def ex_mem_def ex_boot_def)
  done

lemma load32_zero [simp]: "load32 (\<lambda>x. 0) a = 0"
  by (simp add: load32_def)

lemma ex_live_wf: "wf_freelist ex_live [0x101000, 0x102000, 0x103000]"
  apply (simp add: wf_freelist_def ex_live_def ex_boot_def ex_mem_def fte_of_def frame_table_entry_def)
  apply (simp add: PAGE_FRAME_def PAGE_SIZE_def MIPS_KSEG0_def)
  apply (simp add: load32_store32_same load32_store32_aligned)
  done

lemma PADDR_TO_KVADDR_inj: "inj PADDR_TO_KVADDR"
  by (simp add: inj_def PADDR_TO_KVADDR_def)

lemma PADDR_TO_KVADDR_nz: "f < MIPS_KSEG0 \<Longrightarrow> PADDR_TO_KVADDR f \<noteq> 0"
  unfolding PADDR_TO_KVADDR_def MIPS_KSEG0_def word_less_nat_alt word_unat_eq_iff unat_add32
  by auto

lemma alloc_seq_wf:
  "wf_freelist s fs \<Longrightarrow> k \<le> length fs \<Longrightarrow>
     fst (alloc_seq k s) = map PADDR_TO_KVADDR (take k fs) \<and>
     wf_freelist (snd (alloc_seq k s)) (drop k fs)"
proof (induction k arbitrary: s fs)
  case 0
  then show ?case by simp
next
  case (Suc k)
  then obtain f fs' where fs: "fs = f # fs'" by (cases fs) auto
  let ?s1 = "s\<lparr>freeframe := load32 (mem s) (fte_of s f), mem := store32 (mem s) (fte_of s f) 0\<rparr>"
  from Suc.prems fs have a: "alloc_kpages 1 s = (PADDR_TO_KVADDR f, ?s1)" and w: "wf_freelist ?s1 fs'"
    by (simp_all add: wf_freelist_Cons)
  from Suc.prems fs have "k \<le> length fs'" by simp
  from Suc.IH [OF w this] a fs show ?case
    by (simp add: split_beta)
qed

text \<open>
  The allocator on a live frame table (\<open>frame_table\<close> is not null): a request for more
  than one frame fails; a request for one frame fails when the free list is empty;
  otherwise it returns the head of the free list, clears the head's \<open>next_freeframe\<close>
  field and makes the former second element the head. When the free list is a well-formed
  list \<open>fs\<close>, \<open>k \<le> length fs\<close> allocations in a row return the first \<open>k\<close> frames
  of \<open>fs\<close>, which are distinct and not null, and the allocation that follows
  \<open>length fs\<close> allocations fails.
\<close>

lemma alloc_kpages_live:
  assumes "frame_table s \<noteq> 0"
  shows "(1 < n \<longrightarrow> alloc_kpages n s = (0, s)) \<and>
     (freeframe s = 0 \<longrightarrow> alloc_kpages 1 s = (0, s)) \<and>
     (freeframe s \<noteq> 0 \<longrightarrow>
        (\<exists>s'. getppages 1 s = (freeframe s, s') \<and>
              alloc_kpages 1 s = (PADDR_TO_KVADDR (freeframe s), s') \<and>
              load32 (mem s') (fte_of s (freeframe s)) = 0 \<and>
              freeframe s' = load32 (mem s) (fte_of s (freeframe s)))) \<and>
     (wf_freelist s fs \<and> k \<le> length fs \<longrightarrow>
        fst (alloc_seq k s) = map PADDR_TO_KVADDR (take k fs) \<and>
        length (fst (alloc_seq k s)) = k \<and>
        distinct (fst (alloc_seq k s)) \<and> 0 \<notin> set (fst (alloc_seq k s)) \<and>
        wf_freelist (snd (alloc_seq k s)) (drop k fs)) \<and>
     (wf_freelist s fs \<longrightarrow>
        alloc_kpages 1 (snd (alloc_seq (length fs) s)) = (0, snd (alloc_seq (length fs) s)))"
proof (intro conjI impI)
  assume "1 < n"
  with assms show "alloc_kpages n s = (0, s)"
    by (simp add: alloc_kpages_def getppages_def)
next
  assume "freeframe s = 0"
  with assms show "alloc_kpages 1 s = (0, s)"
    by (simp add: alloc_kpages_def getppages_def)
next
  assume nz: "freeframe s \<noteq> 0"
  let ?s' = "s\<lparr>freeframe := load32 (mem s) (fte_of s (freeframe s)),
               mem := store32 (mem s) (fte_of s (freeframe s)) 0\<rparr>"
  have g: "getppages 1 s = (freeframe s, ?s')"
    using assms nz by (simp add: getppages_pop)
  then have "alloc_kpages 1 s = (PADDR_TO_KVADDR (freeframe s), ?s')"
    using nz by (simp add: alloc_kpages_def)
  with g show "\<exists>s'. getppages 1 s = (freeframe s, s') \<and>
              alloc_kpages 1 s = (PADDR_TO_KVADDR (freeframe s), s') \<and>
              load32 (mem s') (fte_of s (freeframe s)) = 0 \<and>
              freeframe s' = load32 (mem s) (fte_of s (freeframe s))"
    by (intro exI [of _ ?s']) (simp add: load32_store32_same)
next
  assume a: "wf_freelist s fs \<and> k \<le> length fs"
  then have r: "fst (alloc_seq k s) = map PADDR_TO_KVADDR (take k fs)"
    and w: "wf_freelist (snd (alloc_seq k s)) (drop k fs)"
    using alloc_seq_wf [of s fs k] by simp_all
  from a have d: "distinct (take k fs)" and b: "\<forall>f \<in> set (take k fs). f < MIPS_KSEG0"
    by (auto simp: wf_freelist_def dest: in_set_takeD)
  show "fst (alloc_seq k s) = map PADDR_TO_KVADDR (take k fs)" by (rule r)
  show "length (fst (alloc_seq k s)) = k" using a by (simp add: r)
  show "distinct (fst (alloc_seq k s))"
    using d by (simp add: r distinct_map inj_on_def PADDR_TO_KVADDR_def)
  show "0 \<notin> set (fst (alloc_seq k s))"
    using b PADDR_TO_KVADDR_nz by (fastforce simp: r)
  show "wf_freelist (snd (alloc_seq k s)) (drop k fs)" by (rule w)
next
  assume "wf_freelist s fs"
  then have "wf_freelist (snd (alloc_seq (length fs) s)) []"
    using alloc_seq_wf [of s fs "length fs"] by simp
  then show "alloc_kpages 1 (snd (alloc_seq (length fs) s)) = (0, snd (alloc_seq (length fs) s))"
    by (rule wf_freelist_Nil)
qed

lemma alloc_kpages_live_example:
  "frame_table ex_live \<noteq> 0 \<and> alloc_kpages 2 ex_live = (0, ex_live) \<and>
   wf_freelist ex_live [0x101000, 0x102000, 0x103000] \<and>
   fst (alloc_seq 2 ex_live) = [0x80101000, 0x80102000] \<and>
   fst (alloc_kpages 1 (snd (alloc_seq 3 ex_live))) = 0"
proof -
  let ?fs = "[0x101000, 0x102000, 0x103000] :: paddr_t list"
  have ft: "frame_table ex_live \<noteq> 0" by (simp add: ex_live_def)
  have l: "2 \<le> length ?fs" "(2 :: int) > 1" by simp_all
  note t = alloc_kpages_live [OF ft, of 2 ?fs 2]
  from t l have a: "alloc_kpages 2 ex_live = (0, ex_live)" by blast
  from t l ex_live_wf have "fst (alloc_seq 2 ex_live) = map PADDR_TO_KVADDR (take 2 ?fs)"
    by blast
  then have b: "fst (alloc_seq 2 ex_live) = [0x80101000, 0x80102000]"
    by (simp add: PADDR_TO_KVADDR_def MIPS_KSEG0_def)
  from t ex_live_wf have "alloc_kpages 1 (snd (alloc_seq (length ?fs) ex_live)) =
      (0, snd (alloc_seq (length ?fs) ex_live))"
    by blast
  moreover have "length ?fs = 3" by simp
  ultimately have c: "fst (alloc_kpages 1 (snd (alloc_seq 3 ex_live))) = 0"
    by (simp only: fst_conv)
  from ft a ex_live_wf b c show ?thesis by (intro conjI)
qed

lemma free_list_eq:
  assumes "\<forall>g \<in> set fs. load32 (mem s') (fte_of s' g) = load32 (mem s) (fte_of s g)"
  shows "free_list s' p fs = free_list s p fs"
  using assms by (induction fs arbitrary: p) auto

lemma KVADDR_PADDR [simp]: "PADDR_TO_KVADDR (KVADDR_TO_PADDR a) = a"
  "KVADDR_TO_PADDR (PADDR_TO_KVADDR p) = p"
  by (simp_all add: PADDR_TO_KVADDR_def KVADDR_TO_PADDR_def)

text \<open>
  Claim C5. For every frame address \<open>addr\<close> above the bookkeeping boundary \<open>frametop\<close>,
  \<open>free_kpages(addr)\<close> followed by \<open>alloc_kpages(1)\<close> returns \<open>addr\<close> itself: the frame is
  pushed at the head of the free list and popped from it again. The head of the free list
  is afterwards what it was before the free, and when the free list was the list \<open>fs\<close> and
  the page-aligned frame was not on it, it is the list \<open>fs\<close> again: no frame that was free
  before has been used.
\<close>

theorem free_kpages_alloc_kpages_lifo:
  assumes "frame_table s \<noteq> 0" "MIPS_KSEG0 \<le> addr" "frametop s < KVADDR_TO_PADDR addr"
  shows "\<exists>s1 s2. free_kpages addr s = Inr s1 \<and> freeframe s1 = KVADDR_TO_PADDR addr \<and>
           alloc_kpages 1 s1 = (addr, s2) \<and> freeframe s2 = freeframe s \<and>
           (\<forall>fs. wf_freelist s fs \<and> KVADDR_TO_PADDR addr \<notin> set fs \<and>
                 KVADDR_TO_PADDR addr AND PAGE_FRAME = KVADDR_TO_PADDR addr
                 \<longrightarrow> wf_freelist s2 fs)"
proof -
  let ?f = "KVADDR_TO_PADDR addr"
  let ?e = "fte_of s ?f"
  let ?s1 = "s\<lparr>mem := store32 (mem s) ?e (freeframe s), freeframe := ?f\<rparr>"
  let ?s2 = "?s1\<lparr>freeframe := freeframe s, mem := store32 (mem ?s1) ?e 0\<rparr>"
  have nz: "?f \<noteq> 0" using assms(3) by (auto simp: word_less_nat_alt)
  have fr: "free_kpages addr s = Inr ?s1"
    using assms by (simp add: free_kpages_def freeppages_def Let_def fte_of_def not_le not_less)
  have e1: "fte_of ?s1 ?f = ?e" by (simp add: fte_of_def frame_table_entry_def)
  have "getppages 1 ?s1 = (?f, ?s2)"
    using assms(1) nz by (simp add: getppages_pop e1 load32_store32_same)
  then have al: "alloc_kpages 1 ?s1 = (addr, ?s2)"
    using nz by (simp add: alloc_kpages_def)
  have keep: "wf_freelist ?s2 fs"
    if w: "wf_freelist s fs" and n: "?f \<notin> set fs" and a: "?f AND PAGE_FRAME = ?f" for fs
  proof -
    have "\<forall>g \<in> set fs. load32 (mem ?s2) (fte_of ?s2 g) = load32 (mem s) (fte_of s g)"
    proof
      fix g assume g: "g \<in> set fs"
      with w n have "g \<noteq> ?f" "g AND PAGE_FRAME = g" by (auto simp: wf_freelist_def)
      with w a have ne: "?e \<noteq> fte_of s g" by (intro fte_of_inj) (auto simp: wf_freelist_def)
      have al4: "?e AND 3 = 0" "fte_of s g AND 3 = 0"
        using w by (auto simp: wf_freelist_def intro: fte_of_al4)
      have "fte_of ?s2 g = fte_of s g" by (simp add: fte_of_def frame_table_entry_def)
      then show "load32 (mem ?s2) (fte_of ?s2 g) = load32 (mem s) (fte_of s g)"
        using ne al4 by (simp add: load32_store32_aligned)
    qed
    then have "free_list ?s2 (freeframe s) fs = free_list s (freeframe s) fs"
      by (rule free_list_eq)
    with w show ?thesis by (simp add: wf_freelist_def)
  qed
  from fr al keep show ?thesis
    by (intro exI [of _ ?s1] exI [of _ ?s2]) simp
qed

theorem free_kpages_alloc_kpages_lifo_witness:
  "frame_table ex_live \<noteq> 0 \<and> MIPS_KSEG0 \<le> 0x80102000 \<and>
   frametop ex_live < KVADDR_TO_PADDR 0x80102000 \<and>
   (\<exists>s1 s2. free_kpages 0x80102000 ex_live = Inr s1 \<and>
      alloc_kpages 1 s1 = (0x80102000, s2) \<and> freeframe s2 = freeframe ex_live)"
proof -
  have h: "frame_table ex_live \<noteq> 0" "MIPS_KSEG0 \<le> 0x80102000"
    "frametop ex_live < KVADDR_TO_PADDR 0x80102000"
    by (simp_all add: ex_live_def MIPS_KSEG0_def KVADDR_TO_PADDR_def)
  from free_kpages_alloc_kpages_lifo [OF h] h show ?thesis by blast
qed

lemma region_list_cong:
  assumes "\<forall>r \<in> set rs. as_next_region (region_heap s' r) = as_next_region (region_heap s r)"
  shows "region_list s' p rs = region_list s p rs"
  using assms by (induction rs arbitrary: p) auto

lemma region_list_unique: "region_list s p rs \<Longrightarrow> region_list s p rs' \<Longrightarrow> rs = rs'"
proof (induction rs arbitrary: p rs')
  case Nil
  then show ?case by (cases rs') auto
next
  case (Cons r rs)
  then show ?case by (cases rs') auto
qed

lemma region_list_append:
  "region_list s p (xs @ r # ys) \<Longrightarrow> region_list s r (r # ys)"
  by (induction xs arbitrary: p) auto

lemma region_list_hd_notin:
  assumes "region_list s p (r # rs)"
  shows "r \<notin> set rs"
proof
  assume "r \<in> set rs"
  then obtain xs ys where sp: "rs = xs @ r # ys" by (auto simp: in_set_conv_decomp)
  with assms have "region_list s (as_next_region (region_heap s r)) (xs @ r # ys)" by simp
  then have "region_list s r (r # ys)" by (rule region_list_append)
  then have "region_list s (as_next_region (region_heap s r)) ys" by simp
  moreover from assms sp have "region_list s (as_next_region (region_heap s r)) (xs @ r # ys)"
    by simp
  ultimately have "ys = xs @ r # ys" by (rule region_list_unique)
  then show False by (metis append_self_conv2 list.distinct(1) not_Cons_self2 same_append_eq append.assoc append_Cons)
qed

lemma region_list_distinct: "region_list s p rs \<Longrightarrow> distinct rs"
proof (induction rs arbitrary: p)
  case Nil
  then show ?case by simp
next
  case (Cons r rs)
  from Cons.prems have "r \<notin> set rs" by (rule region_list_hd_notin)
  moreover from Cons have "distinct rs" by auto
  ultimately show ?case by simp
qed

lemma region_list_nonnull: "region_list s p rs \<Longrightarrow> 0 \<notin> set rs"
  by (induction rs arbitrary: p) auto

lemma map_regions_Cons:
  assumes "r \<notin> set rs"
  shows "map_regions f rs (set_region r f s) = map_regions f (r # rs) s"
  using assms by (auto simp: map_regions_def set_region_def fun_eq_iff)

lemma region_list_set_region:
  assumes "r \<notin> set rs"
  shows "region_list (set_region r f s) p rs = region_list s p rs"
  using assms by (intro region_list_cong) (auto simp: set_region_def)

lemma set_region_twice: "set_region p g (set_region p f s) = set_region p (g \<circ> f) s"
  by (simp add: set_region_def)

lemma as_prepare_load_loop_list:
  "region_list s p rs \<Longrightarrow> as_prepare_load_loop p s = Some (map_regions prepare_region rs s)"
proof (induction rs arbitrary: p s)
  case Nil
  then show ?case
    by (subst as_prepare_load_loop.simps) (simp add: map_regions_def)
next
  case (Cons r rs)
  then have p: "p = r" "r \<noteq> 0" and n: "region_list s (as_next_region (region_heap s r)) rs"
    by auto
  have notin: "r \<notin> set rs" using Cons.prems by (rule region_list_hd_notin)
  let ?s2 = "set_region r prepare_region s"
  have step: "set_region r (\<lambda>x. x\<lparr>as_permissions := as_permissions x OR as_permissions (region_heap s r) OR PF_W\<rparr>)
          (set_region r (\<lambda>x. x\<lparr>as_permissions := push_bit 8 (as_permissions x)\<rparr>) s) = ?s2"
    by (simp add: set_region_def prepare_region_def)
  have nx: "as_next_region (region_heap ?s2 r) = as_next_region (region_heap s r)"
    by (simp add: set_region_def prepare_region_def)
  have "region_list ?s2 (as_next_region (region_heap s r)) rs"
    using n notin by (simp add: region_list_set_region)
  from Cons.IH [OF this] have "as_prepare_load_loop (as_next_region (region_heap s r)) ?s2 =
      Some (map_regions prepare_region (r # rs) s)"
    using notin by (simp add: map_regions_Cons)
  then show ?case
    using p by (subst as_prepare_load_loop.simps) (simp add: Let_def step nx)
qed

lemma as_complete_load_loop_list:
  "region_list s p rs \<Longrightarrow> as_complete_load_loop p s = Some (map_regions complete_region rs s)"
proof (induction rs arbitrary: p s)
  case Nil
  then show ?case
    by (subst as_complete_load_loop.simps) (simp add: map_regions_def)
next
  case (Cons r rs)
  then have p: "p = r" "r \<noteq> 0" and n: "region_list s (as_next_region (region_heap s r)) rs"
    by auto
  have notin: "r \<notin> set rs" using Cons.prems by (rule region_list_hd_notin)
  let ?s2 = "set_region r complete_region s"
  have step: "set_region r (\<lambda>x. x\<lparr>as_permissions := drop_bit 8 (as_permissions x)\<rparr>) s = ?s2"
    by (simp add: set_region_def complete_region_def)
  have nx: "as_next_region (region_heap ?s2 r) = as_next_region (region_heap s r)"
    by (simp add: set_region_def complete_region_def)
  have "region_list ?s2 (as_next_region (region_heap s r)) rs"
    using n notin by (simp add: region_list_set_region)
  from Cons.IH [OF this] have "as_complete_load_loop (as_next_region (region_heap s r)) ?s2 =
      Some (map_regions complete_region (r # rs) s)"
    using notin by (simp add: map_regions_Cons)
  then show ?case
    using p by (subst as_complete_load_loop.simps) (simp add: Let_def step nx)
qed

lemma bit_lt256:
  assumes "(p :: 32 word) < 256" "8 \<le> k"
  shows "\<not> bit p k"
proof -
  have "p AND mask 8 = p" using assms(1) by (intro less_mask_eq) simp
  then have "bit p k = bit (p AND mask 8) k" by simp
  also have "\<dots> = False" using assms(2) by (simp add: bit_simps)
  finally show ?thesis by simp
qed

lemma prepare_complete_perm:
  assumes "(p :: 32 word) < 256"
  shows "drop_bit 8 (push_bit 8 p OR p OR PF_W) = p"
proof (rule bit_word_eqI)
  fix n assume n: "n < LENGTH(32)"
  have 1: "\<not> bit p (n + 8)" "\<not> bit p (8 + n)" using assms by (rule bit_lt256, simp)+
  have 2: "\<not> bit (2 :: 32 word) (n + 8)"
    by (rule bit_lt256) simp_all
  have 3: "bit p n \<Longrightarrow> n + 8 < 32"
    using bit_lt256 [OF assms, of n] by (cases "8 \<le> n") auto
  show "bit (drop_bit 8 (push_bit 8 p OR p OR PF_W)) n = bit p n"
    using 1 2 3 n by (auto simp: bit_simps PF_W_def)
qed

lemma prepare_write_bit: "(push_bit 8 p OR p OR PF_W) AND 0xff AND PF_W = (PF_W :: 32 word)"
proof -
  have "(0xff :: 32 word) AND PF_W = PF_W" by (simp add: PF_W_def)
  then have "(push_bit 8 p OR p OR PF_W) AND 0xff AND PF_W = (push_bit 8 p OR p OR PF_W) AND PF_W"
    by (simp add: and.assoc)
  also have "\<dots> = PF_W" by (auto simp: bit_eq_iff bit_and_iff bit_or_iff)
  finally show ?thesis .
qed

lemma map_regions_fields [simp]:
  "addrspace_heap (map_regions f rs s) = addrspace_heap s"
  "region_heap (map_regions f rs s) r = (if r \<in> set rs then f (region_heap s r) else region_heap s r)"
  by (simp_all add: map_regions_def)

text \<open>
  Claim C6. For an address space whose region list is not empty and whose regions'
  permission fields use only the low-order 8 bits, \<open>as_prepare_load\<close> succeeds and leaves
  the write permission set in the low-order 8 bits of every region's permission field,
  and \<open>as_complete_load\<close> after it succeeds and gives every permission field its original
  value again; in fact it gives back the state before \<open>as_prepare_load\<close>.
\<close>

theorem as_prepare_complete_load:
  assumes "as \<noteq> 0" "region_list s (as_regions_start (addrspace_heap s as)) rs" "rs \<noteq> []"
    "\<forall>r \<in> set rs. as_permissions (region_heap s r) < 256"
  shows "\<exists>s1. as_prepare_load as s = Some (Inr (OK, s1)) \<and>
           (\<forall>r \<in> set rs. as_permissions (region_heap s1 r) AND 0xff AND PF_W = PF_W) \<and>
           as_complete_load as s1 = Some (Inr (OK, s)) \<and>
           (\<forall>r \<in> set rs. as_permissions (region_heap s r) =
                           drop_bit 8 (as_permissions (region_heap s1 r)))"
proof -
  let ?p = "as_regions_start (addrspace_heap s as)"
  let ?s1 = "map_regions prepare_region rs s"
  have nz: "?p \<noteq> 0" using assms(2,3) by (cases rs) auto
  have pl: "as_prepare_load as s = Some (Inr (OK, ?s1))"
    using assms(1) nz by (simp add: as_prepare_load_def as_prepare_load_loop_list [OF assms(2)])
  have w: "\<forall>r \<in> set rs. as_permissions (region_heap ?s1 r) AND 0xff AND PF_W = PF_W"
    by (simp add: prepare_region_def prepare_write_bit)
  have rl: "region_list ?s1 ?p rs"
    by (subst region_list_cong [where s = s]) (simp_all add: prepare_region_def assms(2))
  have restore: "map_regions complete_region rs ?s1 = s"
  proof -
    have "(if r \<in> set rs then complete_region (region_heap ?s1 r) else region_heap ?s1 r) =
            region_heap s r" for r
      using assms(4) prepare_complete_perm [of "as_permissions (region_heap s r)"]
      by (auto simp: complete_region_def prepare_region_def)
    then have eq: "(\<lambda>r. if r \<in> set rs then complete_region (region_heap ?s1 r)
                        else region_heap ?s1 r) = region_heap s"
      by (rule ext)
    have "map_regions complete_region rs ?s1 = ?s1\<lparr>region_heap := region_heap s\<rparr>"
      by (simp only: map_regions_def [of complete_region] eq)
    also have "\<dots> = s" by (simp add: map_regions_def)
    finally show ?thesis .
  qed
  have cl: "as_complete_load as ?s1 = Some (Inr (OK, s))"
    using assms(1) nz rl by (simp add: as_complete_load_def as_complete_load_loop_list restore)
  have d: "\<forall>r \<in> set rs. as_permissions (region_heap s r) =
                           drop_bit 8 (as_permissions (region_heap ?s1 r))"
  proof
    fix r assume "r \<in> set rs"
    with assms(4) prepare_complete_perm [of "as_permissions (region_heap s r)"]
    show "as_permissions (region_heap s r) = drop_bit 8 (as_permissions (region_heap ?s1 r))"
      by (simp add: prepare_region_def)
  qed
  from pl w cl d show ?thesis by blast
qed

lemma ex_proc_regions: "region_list ex_proc 0x80004010 [0x80004010]"
  by (simp add: ex_proc_def)

theorem as_prepare_complete_load_witness:
  "region_list ex_proc (as_regions_start (addrspace_heap ex_proc 0x80004000)) [0x80004010] \<and>
   as_permissions (region_heap ex_proc 0x80004010) < 256 \<and>
   (\<exists>s1. as_prepare_load 0x80004000 ex_proc = Some (Inr (OK, s1)) \<and>
      as_permissions (region_heap s1 0x80004010) AND 0xff AND PF_W = PF_W \<and>
      as_complete_load 0x80004000 s1 = Some (Inr (OK, ex_proc)))"
proof -
  have h: "(0x80004000 :: 32 word) \<noteq> 0"
    "region_list ex_proc (as_regions_start (addrspace_heap ex_proc 0x80004000)) [0x80004010]"
    "[0x80004010 :: 32 word] \<noteq> []"
    "\<forall>r \<in> set [0x80004010]. as_permissions (region_heap ex_proc r) < 256"
    by (simp_all add: ex_proc_def)
  from as_prepare_complete_load [OF h] obtain s1 where
    "as_prepare_load 0x80004000 ex_proc = Some (Inr (OK, s1))"
    "as_permissions (region_heap s1 0x80004010) AND 0xff AND PF_W = PF_W"
    "as_complete_load 0x80004000 s1 = Some (Inr (OK, ex_proc))"
    by auto
  moreover have "as_permissions (region_heap ex_proc 0x80004010) < 256"
    by (simp add: ex_proc_def)
  ultimately show ?thesis using h(2) by blast
qed

lemma getppages_fields:
  "getppages n s = (v, s') \<Longrightarrow>
     s' = s\<lparr>mem := mem s', freeframe := freeframe s', firstpaddr := firstpaddr s'\<rparr>"
  by (auto simp: getppages_def ram_stealmem_def Let_def split: if_splits)

lemma alloc_kpages_fields:
  "alloc_kpages n s = (v, s') \<Longrightarrow>
     s' = s\<lparr>mem := mem s', freeframe := freeframe s', firstpaddr := firstpaddr s'\<rparr>"
  by (auto simp: alloc_kpages_def split: prod.splits if_splits dest: getppages_fields)

lemma tlb_alloc_kpages: "alloc_kpages n s = (v, s') \<Longrightarrow> tlb s' = tlb s"
  by (drule alloc_kpages_fields) (erule ssubst, simp)

lemma tlb_as_zero_region [simp]: "tlb (as_zero_region v n s) = tlb s"
  by (simp add: as_zero_region_def)

lemma tlb_vm_fault_pagetable:
  "vm_fault_pagetable pv as fa permis s = Inr (paddr, s') \<Longrightarrow> tlb s' = tlb s"
  unfolding vm_fault_pagetable_def Let_def
  by (auto split: if_splits prod.splits dest!: tlb_alloc_kpages)

lemma vm_fault_tlb_loop_Some:
  "vm_fault_tlb_loop n i fa pa s = Some s' \<Longrightarrow>
     \<exists>k. i \<le> k \<and> k < i + n \<and> \<not> tlb_valid (tlb s k) \<and>
         (\<forall>j. i \<le> j \<and> j < k \<longrightarrow> tlb_valid (tlb s j)) \<and>
         s' = tlb_write fa (pa OR TLBLO_VALID) k s"
proof (induction n arbitrary: i)
  case 0
  then show ?case by simp
next
  case (Suc n)
  show ?case
  proof (cases "tlb_valid (tlb s i)")
    case True
    with Suc.prems have "vm_fault_tlb_loop n (i + 1) fa pa s = Some s'"
      by (simp add: tlb_read_def tlb_valid_def split: prod.splits)
    from Suc.IH [OF this] obtain k where k: "i + 1 \<le> k" "k < i + 1 + n" "\<not> tlb_valid (tlb s k)"
      "\<forall>j. i + 1 \<le> j \<and> j < k \<longrightarrow> tlb_valid (tlb s j)"
      "s' = tlb_write fa (pa OR TLBLO_VALID) k s"
      by blast
    have "\<forall>j. i \<le> j \<and> j < k \<longrightarrow> tlb_valid (tlb s j)"
    proof (intro allI impI)
      fix j assume "i \<le> j \<and> j < k"
      then show "tlb_valid (tlb s j)" using k(4) True by (cases "j = i") auto
    qed
    with k show ?thesis by (intro exI [of _ k]) simp
  next
    case False
    with Suc.prems have "s' = tlb_write fa (pa OR TLBLO_VALID) i s"
      by (simp add: tlb_read_def tlb_valid_def split: prod.splits)
    with False show ?thesis by (intro exI [of _ i]) auto
  qed
qed

lemma vm_fault_tlb_loop_None:
  "vm_fault_tlb_loop n i fa pa s = None \<Longrightarrow> j < i + n \<Longrightarrow> i \<le> j \<Longrightarrow> tlb_valid (tlb s j)"
proof (induction n arbitrary: i)
  case 0
  then show ?case by simp
next
  case (Suc n)
  from Suc.prems(1) have v: "tlb_valid (tlb s i)"
    and r: "vm_fault_tlb_loop n (i + 1) fa pa s = None"
    by (auto simp: tlb_read_def tlb_valid_def split: prod.splits if_splits)
  show ?case
  proof (cases "j = i")
    case True
    with v show ?thesis by simp
  next
    case False
    with Suc.prems have "j < (i + 1) + n" "i + 1 \<le> j" by simp_all
    with Suc.IH [OF r] show ?thesis by simp
  qed
qed

lemma vm_fault_tlb_spec:
  "\<exists>k < NUM_TLB. tlb (vm_fault_tlb fa pa s) = (tlb s)(k := (fa, pa OR TLBLO_VALID)) \<and>
     ((\<exists>j < NUM_TLB. \<not> tlb_valid (tlb s j)) \<longrightarrow>
        \<not> tlb_valid (tlb s k) \<and> (\<forall>j < k. tlb_valid (tlb s j)))"
proof (cases "vm_fault_tlb_loop NUM_TLB 0 fa pa s")
  case None
  then have "\<forall>j < NUM_TLB. tlb_valid (tlb s j)"
    using vm_fault_tlb_loop_None [of NUM_TLB 0 fa pa s] by simp
  moreover have "tlb_random_slot s mod NUM_TLB < NUM_TLB" by (simp add: NUM_TLB_def)
  ultimately show ?thesis using None
    by (intro exI [of _ "tlb_random_slot s mod NUM_TLB"])
      (auto simp: vm_fault_tlb_def tlb_random_def)
next
  case (Some s')
  from vm_fault_tlb_loop_Some [OF this] obtain k where
    "k < NUM_TLB" "\<not> tlb_valid (tlb s k)" "\<forall>j < k. tlb_valid (tlb s j)"
    "s' = tlb_write fa (pa OR TLBLO_VALID) k s"
    by auto
  with Some show ?thesis
    by (intro exI [of _ k]) (simp add: vm_fault_tlb_def tlb_write_def)
qed

lemma tlb_valid_new: "tlb_valid (fa, pa OR TLBLO_VALID)"
proof -
  have "(pa OR TLBLO_VALID) AND TLBLO_VALID = TLBLO_VALID"
    by (auto simp: bit_eq_iff bit_and_iff bit_or_iff)
  then show ?thesis by (simp add: tlb_valid_def TLBLO_VALID_def)
qed


lemma ex_proc_fault_regions:
  "vm_fault_regions 0x80004010 0x400000 ex_proc = Some (Inr (0x400000, 5))"
  by (subst vm_fault_regions.simps) (simp add: ex_proc_def PAGE_FRAME_def PAGE_SIZE_def)

lemma load32_upd_other:
  "4 \<le> b - a \<Longrightarrow> load32 (m(b := v)) a = load32 m a"
  by (rule load32_eqI) (auto simp: word_le_nat_alt unat_sub32 unat_add32 split: if_splits)

lemma ex_proc_l1: "load32 ex_proc_mem 0x80101004 = 0x80102000"
  by (simp add: ex_proc_mem_def load32_upd_other load32_store32_same load32_store32_aligned)

lemma ex_proc_l2: "load32 ex_proc_mem 0x80102000 = 0x80103001"
  by (simp add: ex_proc_mem_def load32_upd_other load32_store32_same load32_store32_aligned)

lemma ex_proc_fault_pagetable:
  "vm_fault_pagetable 1 0x80004000 0x400000 5 ex_proc = Inr (0x103000, ex_proc)"
proof -
  have "as_pagetable (addrspace_heap ex_proc 0x80004000) = 0x80101000"
    "mem ex_proc = ex_proc_mem"
    by (simp_all add: ex_proc_def)
  then show ?thesis
    by (simp add: vm_fault_pagetable_def TOP_TEN_def MID_TEN_def ex_proc_l1 ex_proc_l2
        vm_fault_dirty_def KVADDR_TO_PADDR_def MIPS_KSEG0_def PF_W_def PAGE_FRAME_def)
qed

lemma ex_proc_fault:
  "vm_fault 1 16 VM_FAULT_READ 0x400123 ex_proc =
     Some (Inr (OK, vm_fault_tlb 0x400000 0x103000 ex_proc))"
proof -
  have "curthread_addrspace ex_proc = 0x80004000"
    "as_regions_start (addrspace_heap ex_proc 0x80004000) = 0x80004010"
    by (simp_all add: ex_proc_def)
  then show ?thesis
    by (simp add: vm_fault_def VM_FAULT_READ_def VM_FAULT_READONLY_def PAGE_FRAME_def
        ex_proc_fault_regions ex_proc_fault_pagetable)
qed


lemma aligned4_sub: "(a :: 32 word) AND 3 = 0 \<Longrightarrow> b AND 3 = 0 \<Longrightarrow> (a - b) AND 3 = 0"
  unfolding al4_int by (simp add: uint_word_ariths dvd_mod_iff)

lemma page_idem [simp]: "(x AND PAGE_FRAME) AND PAGE_FRAME = x AND PAGE_FRAME"
  by (simp add: and.assoc)

lemma aligned4_byte_page:
  assumes "(a :: 32 word) AND 3 = 0" "unat k < 4"
  shows "(a + k) AND PAGE_FRAME = a AND PAGE_FRAME"
proof -
  let ?f = "a AND PAGE_FRAME"
  have f: "?f AND PAGE_FRAME = ?f" by simp
  have d: "a - ?f < 4096" by (simp add: page_sub [OF f])
  have "?f AND 3 = 0" using f by (rule page_aligned_al4)
  with assms(1) have "(a - ?f) AND 3 = 0" by (rule aligned4_sub)
  then obtain l where l: "unat (a - ?f) = 4 * l" by (auto simp: al4 dvd_def)
  have "unat (a - ?f) < 4096" using d by (simp add: word_less_nat_alt)
  with l assms(2) have "unat (a - ?f) + unat k < 4096" by simp
  then have "(a - ?f) + k < 4096"
    by (simp add: word_less_nat_alt unat_add32)
  then have "(a + k) - ?f < 4096" by (simp add: algebra_simps)
  then show ?thesis by (simp add: page_sub [OF f])
qed

lemma load32_page_cong:
  assumes "a AND 3 = 0" "\<forall>x. x AND PAGE_FRAME = a AND PAGE_FRAME \<longrightarrow> m' x = m x"
  shows "load32 m' a = load32 m a"
proof (rule load32_eqI)
  show "m' a = m a" using assms(2) by simp
  show "m' (a + 1) = m (a + 1)" using assms(2) aligned4_byte_page [OF assms(1), of 1] by simp
  show "m' (a + 2) = m (a + 2)" using assms(2) aligned4_byte_page [OF assms(1), of 2] by simp
  show "m' (a + 3) = m (a + 3)" using assms(2) aligned4_byte_page [OF assms(1), of 3] by simp
qed

lemma store32_page:
  assumes "a AND 3 = 0" "x AND PAGE_FRAME \<noteq> a AND PAGE_FRAME"
  shows "store32 m a v x = m x"
proof -
  have "x \<noteq> a" "x \<noteq> a + 1" "x \<noteq> a + 2" "x \<noteq> a + 3"
    using assms(2) aligned4_byte_page [OF assms(1), of 1] aligned4_byte_page [OF assms(1), of 2]
      aligned4_byte_page [OF assms(1), of 3]
    by auto
  then show ?thesis by (simp add: store32_def)
qed

lemma bzero_page:
  assumes "f AND PAGE_FRAME = f"
  shows "bzero m f PAGE_SIZE x = (if x AND PAGE_FRAME = f then 0 else m x)"
  using page_sub [OF assms, of x] by (simp add: bzero_def PAGE_SIZE_def)

lemma memmove_page:
  assumes "f AND PAGE_FRAME = f"
  shows "memmove m f g PAGE_SIZE x = (if x AND PAGE_FRAME = f then m (g + (x - f)) else m x)"
  using page_sub [OF assms, of x] by (simp add: memmove_def PAGE_SIZE_def)

lemma load32_bzero_in:
  assumes "f AND PAGE_FRAME = f" "a AND 3 = 0" "a AND PAGE_FRAME = f"
  shows "load32 (bzero m f PAGE_SIZE) a = 0"
proof -
  have "load32 (bzero m f PAGE_SIZE) a = load32 (\<lambda>x. 0) a"
    using assms by (intro load32_page_cong) (simp_all add: bzero_page)
  then show ?thesis by simp
qed

lemma pt_index1_bound: "drop_bit 22 ((v :: 32 word) AND TOP_TEN) < 1024"
proof -
  have "unat (v AND TOP_TEN) div 2 ^ 22 < 1024" using unat32 [of "v AND TOP_TEN"] by simp
  then show ?thesis by (simp add: word_less_nat_alt drop_bit_eq_div unat_div)
qed

lemma pt_index2_bound: "drop_bit 12 ((v :: 32 word) AND MID_TEN) < 1024"
proof -
  have "v AND MID_TEN \<le> MID_TEN" by (rule word_and_le1)
  then have "unat (v AND MID_TEN) \<le> 4190208" by (simp add: word_le_nat_alt MID_TEN_def)
  then have "unat (v AND MID_TEN) div 2 ^ 12 < 1024" by simp
  then show ?thesis by (simp add: word_less_nat_alt drop_bit_eq_div unat_div)
qed

lemma slot_page:
  assumes "T AND PAGE_FRAME = T" "(i :: 32 word) < 1024"
  shows "(T + i * 4) AND PAGE_FRAME = T" "(T + i * 4) AND 3 = 0"
proof -
  have u: "unat i < 1024" using assms(2) by (simp add: word_less_nat_alt)
  then have m: "unat (i * 4) = unat i * 4" by (simp add: unat_mul4)
  then have "i * 4 < 4096" using u by (simp add: word_less_nat_alt)
  with assms(1) show "(T + i * 4) AND PAGE_FRAME = T" by (rule page_add)
  have "(i * 4) AND 3 = 0" by (simp add: al4 m)
  with page_aligned_al4 [OF assms(1)] show "(T + i * 4) AND 3 = 0" by (rule aligned4_add)
qed

lemma slot_inj:
  assumes "(i :: 32 word) < 1024" "j < 1024" "T + i * 4 = T + j * 4"
  shows "i = j"
proof -
  have "unat (i * 4) = unat i * 4" "unat (j * 4) = unat j * 4"
    using assms(1,2) by (simp_all add: unat_mul4 word_less_nat_alt)
  moreover from assms(3) have "i * 4 = j * 4" by simp
  ultimately show ?thesis by (simp add: word_unat_eq_iff)
qed

lemma KSEG0_aligned: "MIPS_KSEG0 AND PAGE_FRAME = MIPS_KSEG0"
  by (simp add: MIPS_KSEG0_def PAGE_FRAME_def)

lemma kv_aligned: "f AND PAGE_FRAME = f \<Longrightarrow> PADDR_TO_KVADDR f AND PAGE_FRAME = PADDR_TO_KVADDR f"
  unfolding PADDR_TO_KVADDR_def by (rule page_aligned_add) (simp_all add: KSEG0_aligned)

lemma kv_eq [simp]: "PADDR_TO_KVADDR f = PADDR_TO_KVADDR g \<longleftrightarrow> f = g"
  by (simp add: PADDR_TO_KVADDR_def)

lemma load32_store32:
  "a AND 3 = 0 \<Longrightarrow> b AND 3 = 0 \<Longrightarrow>
     load32 (store32 m a v) b = (if a = b then v else load32 m b)"
  by (simp add: load32_store32_same load32_store32_aligned)

lemma load32_store32_page:
  assumes "a AND 3 = 0" "b AND 3 = 0" "a AND PAGE_FRAME \<noteq> b AND PAGE_FRAME"
  shows "load32 (store32 m a v) b = load32 m b"
  using assms by (auto simp: load32_store32)

lemma load32_bzero:
  assumes "f AND PAGE_FRAME = f" "b AND 3 = 0"
  shows "load32 (bzero m f PAGE_SIZE) b = (if b AND PAGE_FRAME = f then 0 else load32 m b)"
proof (cases "b AND PAGE_FRAME = f")
  case True
  with assms show ?thesis by (simp add: load32_bzero_in)
next
  case False
  then have "load32 (bzero m f PAGE_SIZE) b = load32 m b"
    using assms by (intro load32_page_cong) (auto simp: bzero_page)
  with False show ?thesis by simp
qed

lemma pop_frame_fields [simp]:
  "frame_table (pop_frame f s) = frame_table s"
  "frametop (pop_frame f s) = frametop s"
  "freeframe (pop_frame f s) = load32 (mem s) (fte_of s f)"
  "mem (pop_frame f s) = store32 (mem s) (fte_of s f) 0"
  "region_heap (pop_frame f s) = region_heap s"
  "addrspace_heap (pop_frame f s) = addrspace_heap s"
  "kmalloc_pool (pop_frame f s) = kmalloc_pool s"
  "tlb (pop_frame f s) = tlb s"
  "curthread_addrspace (pop_frame f s) = curthread_addrspace s"
  "fte_of (pop_frame f s) g = fte_of s g"
  "fte_page (pop_frame f s) g = fte_page s g"
  by (simp_all add: pop_frame_def fte_of_def fte_page_def frame_table_entry_def)

lemma fte_mem_upd [simp]:
  "fte_of (s\<lparr>mem := m\<rparr>) g = fte_of s g"
  "fte_page (s\<lparr>mem := m\<rparr>) g = fte_page s g"
  by (simp_all add: fte_of_def fte_page_def frame_table_entry_def)

lemma wf_freelist_pop:
  assumes "wf_freelist s (f # fs)"
  shows "alloc_kpages 1 s = (PADDR_TO_KVADDR f, pop_frame f s)"
    and "wf_freelist (pop_frame f s) fs"
  using wf_freelist_Cons [OF assms] by (simp_all add: pop_frame_def)

lemma wf_freelist_mem:
  assumes "wf_freelist s fs" "\<forall>x. x AND PAGE_FRAME \<in> fte_page s ` set fs \<longrightarrow> m' x = mem s x"
  shows "wf_freelist (s\<lparr>mem := m'\<rparr>) fs"
proof -
  have "\<forall>g \<in> set fs. load32 (mem (s\<lparr>mem := m'\<rparr>)) (fte_of (s\<lparr>mem := m'\<rparr>) g) =
          load32 (mem s) (fte_of s g)"
  proof
    fix g assume g: "g \<in> set fs"
    have "fte_of s g AND 3 = 0" using assms(1) by (auto simp: wf_freelist_def intro: fte_of_al4)
    moreover have "\<forall>x. x AND PAGE_FRAME = fte_of s g AND PAGE_FRAME \<longrightarrow> m' x = mem s x"
      using assms(2) g by (auto simp: fte_page_def)
    ultimately have "load32 m' (fte_of s g) = load32 (mem s) (fte_of s g)"
      by (rule load32_page_cong)
    then show "load32 (mem (s\<lparr>mem := m'\<rparr>)) (fte_of (s\<lparr>mem := m'\<rparr>) g) =
          load32 (mem s) (fte_of s g)"
      by simp
  qed
  then have "free_list (s\<lparr>mem := m'\<rparr>) (freeframe s) fs = free_list s (freeframe s) fs"
    by (rule free_list_eq)
  with assms(1) show ?thesis by (simp add: wf_freelist_def)
qed

lemma alloc_inv_mem:
  assumes "alloc_inv s fs U" "\<forall>x. x AND PAGE_FRAME \<notin> U \<longrightarrow> m' x = mem s x"
  shows "alloc_inv (s\<lparr>mem := m'\<rparr>) fs U"
proof -
  have "\<forall>x. x AND PAGE_FRAME \<in> fte_page s ` set fs \<longrightarrow> m' x = mem s x"
    using assms by (auto simp: alloc_inv_def frames_sep_def)
  with assms(1) have "wf_freelist (s\<lparr>mem := m'\<rparr>) fs"
    by (auto simp: alloc_inv_def intro: wf_freelist_mem)
  moreover have "frames_sep (s\<lparr>mem := m'\<rparr>) fs U"
    using assms(1) by (simp add: alloc_inv_def frames_sep_def)
  ultimately show ?thesis by (simp add: alloc_inv_def)
qed

lemma alloc_inv_Nil: "alloc_inv s [] U \<Longrightarrow> alloc_kpages 1 s = (0, s)"
  by (simp add: alloc_inv_def wf_freelist_Nil)

lemma alloc_inv_Cons:
  assumes "alloc_inv s (f # fs) U"
  shows "alloc_kpages 1 s = (PADDR_TO_KVADDR f, pop_frame f s)"
    and "alloc_inv (pop_frame f s) fs (insert (PADDR_TO_KVADDR f) U)"
    and "PADDR_TO_KVADDR f \<noteq> 0"
    and "PADDR_TO_KVADDR f AND PAGE_FRAME = PADDR_TO_KVADDR f"
    and "PADDR_TO_KVADDR f \<notin> U"
    and "fte_page s f \<notin> insert (PADDR_TO_KVADDR f) U"
    and "fte_of s f AND 3 = 0"
proof -
  from assms have w: "wf_freelist s (f # fs)" and sp: "frames_sep s (f # fs) U"
    by (simp_all add: alloc_inv_def)
  show "alloc_kpages 1 s = (PADDR_TO_KVADDR f, pop_frame f s)"
    using w by (rule wf_freelist_pop)
  have "wf_freelist (pop_frame f s) fs" using w by (rule wf_freelist_pop)
  moreover have "frames_sep (pop_frame f s) fs (insert (PADDR_TO_KVADDR f) U)"
    using sp w by (auto simp: frames_sep_def wf_freelist_def)
  ultimately show "alloc_inv (pop_frame f s) fs (insert (PADDR_TO_KVADDR f) U)"
    by (simp add: alloc_inv_def)
  have "f < MIPS_KSEG0" using w by (simp add: wf_freelist_def)
  then show "PADDR_TO_KVADDR f \<noteq> 0" by (rule PADDR_TO_KVADDR_nz)
  show "PADDR_TO_KVADDR f AND PAGE_FRAME = PADDR_TO_KVADDR f"
    using w by (auto simp: wf_freelist_def intro: kv_aligned)
  show "PADDR_TO_KVADDR f \<notin> U" using sp by (simp add: frames_sep_def)
  show "fte_page s f \<notin> insert (PADDR_TO_KVADDR f) U" using sp by (auto simp: frames_sep_def)
  show "fte_of s f AND 3 = 0" using w by (auto simp: wf_freelist_def intro: fte_of_al4)
qed

lemma alloc_inv_sub: "alloc_inv s fs U \<Longrightarrow> V \<subseteq> U \<Longrightarrow> alloc_inv s fs V"
  by (auto simp: alloc_inv_def frames_sep_def)

lemma pt_index_lt [simp]: "pt_index1 v < 1024" "pt_index2 v < 1024"
  unfolding pt_index1_def pt_index2_def by (rule pt_index1_bound, rule pt_index2_bound)

lemma as_prepare_pte_present:
  assumes "l1_entry s (as_pagetable (addrspace_heap s as)) v \<noteq> 0"
  shows "as_prepare_pte as v s =
           (OK, s\<lparr>mem := store32 (mem s)
                    (l1_entry s (as_pagetable (addrspace_heap s as)) v + pt_index2 v * 4) 0\<rparr>)"
  using assms
  by (simp add: as_prepare_pte_def as_clear_pte_def l1_entry_def pt_index1_def pt_index2_def Let_def)

lemma as_prepare_pte_absent_fail:
  assumes "l1_entry s R v = 0" "R = as_pagetable (addrspace_heap s as)" "alloc_inv s [] U"
  shows "as_prepare_pte as v s = (Err EFAULT, s\<lparr>mem := store32 (mem s) (R + pt_index1 v * 4) 0\<rparr>)"
  using assms alloc_inv_Nil [OF assms(3)]
  by (simp add: as_prepare_pte_def l1_entry_def pt_index1_def Let_def load32_store32_same)

lemma as_prepare_pte_absent_ok:
  assumes "l1_entry s R v = 0" "R = as_pagetable (addrspace_heap s as)" "alloc_inv s (f # fs) U"
    "R AND PAGE_FRAME = R" "R \<in> U"
  shows "as_prepare_pte as v s =
           (OK, pop_frame f s\<lparr>mem :=
              store32 (bzero (store32 (store32 (mem s) (fte_of s f) 0) (R + pt_index1 v * 4)
                                (PADDR_TO_KVADDR f))
                        (PADDR_TO_KVADDR f) PAGE_SIZE)
                (PADDR_TO_KVADDR f + pt_index2 v * 4) 0\<rparr>)"
proof -
  note a = alloc_inv_Cons [OF assms(3)]
  let ?K = "PADDR_TO_KVADDR f"
  let ?slot = "R + pt_index1 v * 4"
  have sl: "?slot AND PAGE_FRAME = R" "?slot AND 3 = 0"
    using assms(4) by (simp_all add: slot_page)
  have ne: "?K \<noteq> R" using a(5) assms(5) by auto
  have l: "load32 (bzero (store32 (store32 (mem s) (fte_of s f) 0) ?slot ?K) ?K PAGE_SIZE) ?slot = ?K"
    using sl ne a(4) by (simp add: load32_bzero load32_store32_same)
  show ?thesis
    using assms(1,2) a(1,3) l
    by (simp add: as_prepare_pte_def as_clear_pte_def l1_entry_def pt_index1_def pt_index2_def
        Let_def load32_store32_same as_zero_region_def)
qed

lemma pt_wf_entry:
  assumes "pt_wf s R U" "l1_entry s R v \<noteq> 0"
  shows "l1_entry s R v AND PAGE_FRAME = l1_entry s R v" "l1_entry s R v \<in> U"
    "l1_entry s R v \<noteq> R"
  using assms pt_index_lt(1) [of v] unfolding pt_wf_def l1_entry_def by blast+

lemma pt_wf_root: "pt_wf s R U \<Longrightarrow> R AND PAGE_FRAME = R" "pt_wf s R U \<Longrightarrow> R \<in> U"
  by (simp_all add: pt_wf_def)

lemma as_prepare_pte_present_post:
  assumes inv: "alloc_inv s fs U" and wf: "pt_wf s R U"
    and R: "R = as_pagetable (addrspace_heap s as)"
    and pr: "l1_entry s R v \<noteq> 0"
    and s': "s' = s\<lparr>mem := store32 (mem s) (l1_entry s R v + pt_index2 v * 4) 0\<rparr>"
  shows "alloc_inv s' fs U" "pt_wf s' R U" "pte_cleared s' R v"
    "\<forall>w. pte_cleared s R w \<longrightarrow> pte_cleared s' R w"
    "\<forall>w. l1_entry s' R w = l1_entry s R w"
proof -
  let ?T = "l1_entry s R v"
  let ?a = "?T + pt_index2 v * 4"
  note T = pt_wf_entry [OF wf pr]
  note Rr = pt_wf_root [OF wf]
  have a: "?a AND PAGE_FRAME = ?T" "?a AND 3 = 0" using T(1) by (simp_all add: slot_page)
  have l1: "load32 (mem s') (R + i * 4) = load32 (mem s) (R + i * 4)" if "i < 1024" for i
    using that a T(3) Rr(1) by (simp add: s' load32_store32_page slot_page)
  show "alloc_inv s' fs U"
    unfolding s' using inv
  proof (rule alloc_inv_mem)
    show "\<forall>x. x AND PAGE_FRAME \<notin> U \<longrightarrow> store32 (mem s) ?a 0 x = mem s x"
    proof (intro allI impI)
      fix x assume "x AND PAGE_FRAME \<notin> U"
      with a(1) T(2) have "x AND PAGE_FRAME \<noteq> ?a AND PAGE_FRAME" by auto
      with a(2) show "store32 (mem s) ?a 0 x = mem s x" by (rule store32_page)
    qed
  qed
  show "pt_wf s' R U"
    using wf l1 by (simp add: pt_wf_def)
  have e1: "l1_entry s' R w = l1_entry s R w" for w
    by (simp add: l1_entry_def l1)
  then show "\<forall>w. l1_entry s' R w = l1_entry s R w" by simp
  have e2: "l2_entry s' R v = 0"
    by (simp add: l2_entry_def e1) (simp add: s' load32_store32_same)
  show "pte_cleared s' R v" using pr e1 e2 by (simp add: pte_cleared_def)
  show "\<forall>w. pte_cleared s R w \<longrightarrow> pte_cleared s' R w"
  proof (intro allI impI)
    fix w assume w: "pte_cleared s R w"
    then have nz: "l1_entry s R w \<noteq> 0" and z: "l2_entry s R w = 0"
      by (simp_all add: pte_cleared_def)
    note Tw = pt_wf_entry [OF wf nz]
    have b: "(l1_entry s R w + pt_index2 w * 4) AND 3 = 0" using Tw(1) by (simp add: slot_page)
    have "l2_entry s' R w = 0"
      using z a(2) b by (simp add: l2_entry_def e1) (simp add: s' load32_store32 l2_entry_def)
    with nz e1 show "pte_cleared s' R w" by (simp add: pte_cleared_def)
  qed
qed

lemma as_prepare_pte_absent_post:
  assumes inv: "alloc_inv s (f # fs) U" and wf: "pt_wf s R U"
    and R: "R = as_pagetable (addrspace_heap s as)"
    and ab: "l1_entry s R v = 0"
    and s': "s' = pop_frame f s\<lparr>mem :=
              store32 (bzero (store32 (store32 (mem s) (fte_of s f) 0) (R + pt_index1 v * 4)
                                (PADDR_TO_KVADDR f))
                        (PADDR_TO_KVADDR f) PAGE_SIZE)
                (PADDR_TO_KVADDR f + pt_index2 v * 4) 0\<rparr>"
  shows "alloc_inv s' fs (insert (PADDR_TO_KVADDR f) U)"
    "pt_wf s' R (insert (PADDR_TO_KVADDR f) U)" "pte_cleared s' R v"
    "\<forall>w. pte_cleared s R w \<longrightarrow> pte_cleared s' R w"
    "\<forall>w. pt_index1 w \<noteq> pt_index1 v \<longrightarrow> l1_entry s' R w = l1_entry s R w"
proof -
  let ?K = "PADDR_TO_KVADDR f"
  let ?e = "fte_of s f"
  let ?slot = "R + pt_index1 v * 4"
  let ?c = "?K + pt_index2 v * 4"
  let ?M = "store32 (bzero (store32 (store32 (mem s) ?e 0) ?slot ?K) ?K PAGE_SIZE) ?c 0"
  note a = alloc_inv_Cons [OF inv]
  note Rr = pt_wf_root [OF wf]
  have sl: "?slot AND PAGE_FRAME = R" "?slot AND 3 = 0" using Rr(1) by (simp_all add: slot_page)
  have c: "?c AND PAGE_FRAME = ?K" "?c AND 3 = 0" using a(4) by (simp_all add: slot_page)
  have e: "?e AND PAGE_FRAME \<notin> insert ?K U" using a(6) by (simp add: fte_page_def)
  have m': "mem s' = ?M" by (simp add: s')
  have rd: "load32 ?M b = (if b = ?slot then ?K else load32 (mem s) b)"
    if b: "b AND 3 = 0" "b AND PAGE_FRAME \<in> U" for b
  proof -
    have p: "b AND PAGE_FRAME \<noteq> ?K" "b AND PAGE_FRAME \<noteq> ?e AND PAGE_FRAME"
      using b(2) a(5) e by auto
    have "load32 ?M b = load32 (bzero (store32 (store32 (mem s) ?e 0) ?slot ?K) ?K PAGE_SIZE) b"
      using c b(1) p(1) by (intro load32_store32_page) simp_all
    also have "\<dots> = load32 (store32 (store32 (mem s) ?e 0) ?slot ?K) b"
      using a(4) b(1) p(1) by (simp add: load32_bzero)
    also have "\<dots> = (if b = ?slot then ?K else load32 (store32 (mem s) ?e 0) b)"
      using sl(2) b(1) by (auto simp: load32_store32)
    also have "load32 (store32 (mem s) ?e 0) b = load32 (mem s) b"
      using a(7) b(1) p(2) by (intro load32_store32_page) simp_all
    finally show ?thesis .
  qed
  have outside: "\<forall>x. x AND PAGE_FRAME \<notin> insert ?K U \<longrightarrow> ?M x = mem (pop_frame f s) x"
  proof (intro allI impI)
    fix x assume x: "x AND PAGE_FRAME \<notin> insert ?K U"
    then have "x AND PAGE_FRAME \<noteq> ?c AND PAGE_FRAME" "x AND PAGE_FRAME \<noteq> ?K"
      "x AND PAGE_FRAME \<noteq> ?slot AND PAGE_FRAME"
      using c(1) sl(1) Rr(2) by auto
    then show "?M x = mem (pop_frame f s) x"
      using c(2) sl(2) a(4) by (simp add: store32_page bzero_page)
  qed
  have "alloc_inv (pop_frame f s\<lparr>mem := ?M\<rparr>) fs (insert ?K U)"
    using a(2) outside by (rule alloc_inv_mem)
  then show "alloc_inv s' fs (insert ?K U)" by (simp add: s')
  have l1: "load32 (mem s') (R + i * 4) = (if R + i * 4 = ?slot then ?K else load32 (mem s) (R + i * 4))"
    if "i < 1024" for i
    using that Rr by (simp add: m' rd slot_page)
  have neq: "?K \<noteq> R" using a(5) Rr(2) by auto
  show "pt_wf s' R (insert ?K U)"
    using wf a(3,4) neq by (auto simp: pt_wf_def l1)
  have e1: "l1_entry s' R w = (if R + pt_index1 w * 4 = ?slot then ?K else l1_entry s R w)" for w
    by (simp add: l1_entry_def l1)
  show "\<forall>w. pt_index1 w \<noteq> pt_index1 v \<longrightarrow> l1_entry s' R w = l1_entry s R w"
  proof (intro allI impI)
    fix w assume "pt_index1 w \<noteq> pt_index1 v"
    then have "R + pt_index1 w * 4 \<noteq> ?slot"
      using slot_inj [of "pt_index1 w" "pt_index1 v" R] by auto
    then show "l1_entry s' R w = l1_entry s R w" by (simp add: e1)
  qed
  have "l2_entry s' R v = 0"
    by (simp add: l2_entry_def e1) (simp add: m' load32_store32_same)
  then show "pte_cleared s' R v" using a(3) by (simp add: pte_cleared_def e1)
  show "\<forall>w. pte_cleared s R w \<longrightarrow> pte_cleared s' R w"
  proof (intro allI impI)
    fix w assume w: "pte_cleared s R w"
    then have nz: "l1_entry s R w \<noteq> 0" and z: "l2_entry s R w = 0"
      by (simp_all add: pte_cleared_def)
    note Tw = pt_wf_entry [OF wf nz]
    have ns: "R + pt_index1 w * 4 \<noteq> ?slot" using nz ab by (auto simp: l1_entry_def)
    then have e1w: "l1_entry s' R w = l1_entry s R w" by (simp add: e1)
    let ?b = "l1_entry s R w + pt_index2 w * 4"
    have b: "?b AND 3 = 0" "?b AND PAGE_FRAME = l1_entry s R w"
      using Tw(1) by (simp_all add: slot_page)
    have "?b \<noteq> ?slot" using b(2) sl(1) Tw(3) by auto
    then have "load32 ?M ?b = load32 (mem s) ?b" using b Tw(2) by (simp add: rd)
    then have "l2_entry s' R w = 0" using z by (simp add: l2_entry_def e1w m')
    with nz e1w show "pte_cleared s' R w" by (simp add: pte_cleared_def)
  qed
qed

lemma as_prepare_pte_OK:
  assumes inv: "alloc_inv s fs U" and wf: "pt_wf s R U"
    and R: "R = as_pagetable (addrspace_heap s as)"
    and ok: "as_prepare_pte as v s = (OK, s')"
  shows "\<exists>k \<le> 1. k \<le> length fs \<and>
           alloc_inv s' (drop k fs) (U \<union> PADDR_TO_KVADDR ` set (take k fs)) \<and>
           pt_wf s' R (U \<union> PADDR_TO_KVADDR ` set (take k fs)) \<and>
           pte_cleared s' R v \<and> (\<forall>w. pte_cleared s R w \<longrightarrow> pte_cleared s' R w) \<and>
           s' = s\<lparr>mem := mem s', freeframe := freeframe s'\<rparr> \<and>
           (\<forall>w. pt_index1 w \<noteq> pt_index1 v \<longrightarrow> l1_entry s' R w = l1_entry s R w)"
proof (cases "l1_entry s R v = 0")
  case False
  then have "as_prepare_pte as v s =
      (OK, s\<lparr>mem := store32 (mem s) (l1_entry s R v + pt_index2 v * 4) 0\<rparr>)"
    unfolding R by (rule as_prepare_pte_present)
  with ok have s': "s' = s\<lparr>mem := store32 (mem s) (l1_entry s R v + pt_index2 v * 4) 0\<rparr>"
    by simp
  note p = as_prepare_pte_present_post [OF inv wf R False s']
  have "s' = s\<lparr>mem := mem s', freeframe := freeframe s'\<rparr>" by (simp add: s')
  with p show ?thesis by (intro exI [of _ 0]) simp
next
  case True
  show ?thesis
  proof (cases fs)
    case Nil
    with inv have "alloc_inv s [] U" by simp
    from as_prepare_pte_absent_fail [OF True R this] ok show ?thesis by simp
  next
    case (Cons f fs')
    with inv have inv': "alloc_inv s (f # fs') U" by simp
    note Rr = pt_wf_root [OF wf]
    from as_prepare_pte_absent_ok [OF True R inv' Rr] ok
    have s': "s' = pop_frame f s\<lparr>mem :=
              store32 (bzero (store32 (store32 (mem s) (fte_of s f) 0) (R + pt_index1 v * 4)
                                (PADDR_TO_KVADDR f))
                        (PADDR_TO_KVADDR f) PAGE_SIZE)
                (PADDR_TO_KVADDR f + pt_index2 v * 4) 0\<rparr>"
      by simp
    note p = as_prepare_pte_absent_post [OF inv' wf R True s']
    have "s' = s\<lparr>mem := mem s', freeframe := freeframe s'\<rparr>"
      by (simp add: s' pop_frame_def)
    with p Cons show ?thesis by (intro exI [of _ 1]) (simp add: insert_commute)
  qed
qed

lemma alloc_inv_cong:
  assumes "mem s' = mem s" "frame_table s' = frame_table s" "frametop s' = frametop s"
    "freeframe s' = freeframe s"
  shows "alloc_inv s' fs U = alloc_inv s fs U"
proof -
  have "fte_of s' f = fte_of s f" for f
    using assms by (simp add: fte_of_def frame_table_entry_def)
  then have "frames_sep s' fs U = frames_sep s fs U" by (simp add: frames_sep_def fte_page_def)
  moreover have "wf_freelist s' fs = wf_freelist s fs"
    using assms by (simp add: wf_freelist_def free_list_cong [of s' s])
  ultimately show ?thesis by (simp add: alloc_inv_def)
qed

lemma pt_wf_cong: "mem s' = mem s \<Longrightarrow> pt_wf s' R U = pt_wf s R U"
  by (simp add: pt_wf_def)

lemma pte_cleared_cong: "mem s' = mem s \<Longrightarrow> pte_cleared s' R v = pte_cleared s R v"
  by (simp add: pte_cleared_def l1_entry_def l2_entry_def)

lemma as_define_region_pages_OK:
  assumes "alloc_inv s fs U" "pt_wf s R U" "R = as_pagetable (addrspace_heap s as)"
    "as_define_region_pages as n v s = (OK, s')"
  shows "\<exists>k \<le> length fs. k \<le> n \<and>
           alloc_inv s' (drop k fs) (U \<union> PADDR_TO_KVADDR ` set (take k fs)) \<and>
           pt_wf s' R (U \<union> PADDR_TO_KVADDR ` set (take k fs)) \<and>
           (\<forall>j < n. pte_cleared s' R (v + of_nat j * PAGE_SIZE)) \<and>
           (\<forall>w. pte_cleared s R w \<longrightarrow> pte_cleared s' R w) \<and>
           s' = s\<lparr>mem := mem s', freeframe := freeframe s'\<rparr>"
  using assms
proof (induction n arbitrary: s fs U v)
  case 0
  then show ?case by (intro exI [of _ 0]) simp
next
  case (Suc n)
  from Suc.prems(4) obtain s1 where
    p1: "as_prepare_pte as v s = (OK, s1)"
    and r: "as_define_region_pages as n (v + PAGE_SIZE) s1 = (OK, s')"
    by (auto split: prod.splits status.splits)
  from as_prepare_pte_OK [OF Suc.prems(1,2,3) p1] obtain k1 where
    k1: "k1 \<le> length fs" "k1 \<le> 1"
    "alloc_inv s1 (drop k1 fs) (U \<union> PADDR_TO_KVADDR ` set (take k1 fs))"
    "pt_wf s1 R (U \<union> PADDR_TO_KVADDR ` set (take k1 fs))"
    "pte_cleared s1 R v" "\<forall>w. pte_cleared s R w \<longrightarrow> pte_cleared s1 R w"
    "s1 = s\<lparr>mem := mem s1, freeframe := freeframe s1\<rparr>"
    by blast
  have R1: "R = as_pagetable (addrspace_heap s1 as)"
    by (subst k1(7)) (simp add: Suc.prems(3))
  from Suc.IH [OF k1(3,4) R1 r] obtain k2 where
    k2: "k2 \<le> length (drop k1 fs)" "k2 \<le> n"
    "alloc_inv s' (drop k2 (drop k1 fs))
       (U \<union> PADDR_TO_KVADDR ` set (take k1 fs) \<union> PADDR_TO_KVADDR ` set (take k2 (drop k1 fs)))"
    "pt_wf s' R
       (U \<union> PADDR_TO_KVADDR ` set (take k1 fs) \<union> PADDR_TO_KVADDR ` set (take k2 (drop k1 fs)))"
    "\<forall>j < n. pte_cleared s' R (v + PAGE_SIZE + of_nat j * PAGE_SIZE)"
    "\<forall>w. pte_cleared s1 R w \<longrightarrow> pte_cleared s' R w"
    "s' = s1\<lparr>mem := mem s', freeframe := freeframe s'\<rparr>"
    by blast
  have U: "U \<union> PADDR_TO_KVADDR ` set (take k1 fs) \<union> PADDR_TO_KVADDR ` set (take k2 (drop k1 fs)) =
           U \<union> PADDR_TO_KVADDR ` set (take (k1 + k2) fs)"
    by (auto simp: take_add)
  have pages: "\<forall>j < Suc n. pte_cleared s' R (v + of_nat j * PAGE_SIZE)"
  proof (intro allI impI)
    fix j assume j: "j < Suc n"
    show "pte_cleared s' R (v + of_nat j * PAGE_SIZE)"
    proof (cases j)
      case 0
      with k1(5) k2(6) show ?thesis by simp
    next
      case (Suc j')
      with j k2(5) have "pte_cleared s' R (v + PAGE_SIZE + of_nat j' * PAGE_SIZE)" by simp
      then show ?thesis using Suc by (simp add: algebra_simps)
    qed
  qed
  have f: "s' = s\<lparr>mem := mem s', freeframe := freeframe s'\<rparr>"
    by (subst k2(7), subst k1(7)) simp
  have "k1 + k2 \<le> length fs" "k1 + k2 \<le> Suc n" using k1(1,2) k2(1,2) by simp_all
  moreover have "alloc_inv s' (drop (k1 + k2) fs) (U \<union> PADDR_TO_KVADDR ` set (take (k1 + k2) fs))"
    using k2(3) by (simp add: U add.commute)
  moreover have "pt_wf s' R (U \<union> PADDR_TO_KVADDR ` set (take (k1 + k2) fs))"
    using k2(4) by (simp add: U)
  moreover have "\<forall>w. pte_cleared s R w \<longrightarrow> pte_cleared s' R w" using k1(6) k2(6) by blast
  ultimately show ?case using pages f by (intro exI [of _ "k1 + k2"]) blast
qed

lemma same_frames_refl [simp]: "same_frames s s"
  by (simp add: same_frames_def)

lemma same_frames_trans: "same_frames s s1 \<Longrightarrow> same_frames s1 s2 \<Longrightarrow> same_frames s s2"
  by (simp add: same_frames_def)

lemma same_frames_upd [simp]:
  "same_frames s (set_region p f s)" "same_frames s (set_addrspace q g s)"
  "same_frames s (s\<lparr>kmalloc_pool := l\<rparr>)" "same_frames s (s\<lparr>tlb := t\<rparr>)"
  by (simp_all add: same_frames_def set_region_def set_addrspace_def)

lemma kmalloc_same:
  assumes "kmalloc s = (p, s1)"
  shows "same_frames s s1" "addrspace_heap s1 = addrspace_heap s" "region_heap s1 = region_heap s"
    "tlb s1 = tlb s" "curthread_addrspace s1 = curthread_addrspace s"
  using assms by (auto simp: kmalloc_def same_frames_def split: list.splits)

lemma as_init_region_same:
  assumes "as_init_region p v n r w x s = Inr s1"
  shows "same_frames s s1" "addrspace_heap s1 = addrspace_heap s"
    "tlb s1 = tlb s" "curthread_addrspace s1 = curthread_addrspace s"
    "kmalloc_pool s1 = kmalloc_pool s"
  using assms
  by (auto simp: as_init_region_def set_region_def Let_def same_frames_def split: if_splits)

lemma as_define_region_split:
  assumes "as_define_region as vaddr sz r w x s = Some (Inr (st, s'))"
  shows "\<exists>s3. same_frames s s3 \<and>
           as_pagetable (addrspace_heap s3 as) = as_pagetable (addrspace_heap s as) \<and>
           as_define_region_pages as (unat (region_npages vaddr sz)) (vaddr AND PAGE_FRAME) s3 =
             (st, s')"
proof (cases "as_regions_start (addrspace_heap s as) = 0")
  case True
  obtain p s1 where k: "kmalloc s = (p, s1)" by (cases "kmalloc s")
  let ?s2 = "set_addrspace as (\<lambda>a. a\<lparr>as_regions_start := p\<rparr>) s1"
  from assms True k obtain s3 where
    i: "as_init_region (as_regions_start (addrspace_heap ?s2 as)) (vaddr AND PAGE_FRAME)
          (region_npages vaddr sz) r w x ?s2 = Inr s3"
    and r: "as_define_region_pages as (unat (region_npages vaddr sz)) (vaddr AND PAGE_FRAME) s3 =
             (st, s')"
    by (auto simp: as_define_region_def Let_def region_npages_def split: if_splits sum.splits)
  have "same_frames s ?s2"
    using kmalloc_same(1) [OF k] by (rule same_frames_trans) simp
  then have "same_frames s s3" using as_init_region_same(1) [OF i] by (rule same_frames_trans)
  moreover have "as_pagetable (addrspace_heap s3 as) = as_pagetable (addrspace_heap s as)"
    using as_init_region_same(2) [OF i] kmalloc_same(2) [OF k] by (simp add: set_addrspace_def)
  ultimately show ?thesis using r by blast
next
  case False
  obtain p s1 where k: "kmalloc s = (p, s1)" by (cases "kmalloc s")
  from assms False obtain ar where
    l: "as_last_region (as_regions_start (addrspace_heap s as)) s = Some ar"
    by (auto simp: as_define_region_def Let_def split: if_splits option.splits)
  let ?s2 = "set_region ar (\<lambda>r. r\<lparr>as_next_region := p\<rparr>) s1"
  from assms False k l obtain s3 where
    i: "as_init_region (as_next_region (region_heap ?s2 ar)) (vaddr AND PAGE_FRAME)
          (region_npages vaddr sz) r w x ?s2 = Inr s3"
    and r: "as_define_region_pages as (unat (region_npages vaddr sz)) (vaddr AND PAGE_FRAME) s3 =
             (st, s')"
    by (auto simp: as_define_region_def Let_def region_npages_def split: if_splits sum.splits)
  have "same_frames s ?s2"
    using kmalloc_same(1) [OF k] by (rule same_frames_trans) simp
  then have "same_frames s s3" using as_init_region_same(1) [OF i] by (rule same_frames_trans)
  moreover have "as_pagetable (addrspace_heap s3 as) = as_pagetable (addrspace_heap s as)"
    using as_init_region_same(2) [OF i] kmalloc_same(2) [OF k] by (simp add: set_region_def)
  ultimately show ?thesis using r by blast
qed

lemma alloc_inv_same: "same_frames s s' \<Longrightarrow> alloc_inv s' fs U = alloc_inv s fs U"
  by (rule alloc_inv_cong) (simp_all add: same_frames_def)

lemma pt_wf_same: "same_frames s s' \<Longrightarrow> pt_wf s' R U = pt_wf s R U"
  by (rule pt_wf_cong) (simp add: same_frames_def)

lemma entries_same:
  assumes "same_frames s s'"
  shows "l1_entry s' R v = l1_entry s R v" "l2_entry s' R v = l2_entry s R v"
  using assms by (simp_all add: same_frames_def l1_entry_def l2_entry_def)

text \<open>
  Claim C10. When \<open>as_define_region\<close> succeeds, the second-level table of every page of the
  page-aligned range is present and the entry of the page in it is 0, whatever the entry
  held before, a valid mapping included. Nothing is given back to the allocator: the free
  list afterwards is a suffix \<open>drop k fs\<close> of the free list \<open>fs\<close> before, so a frame that
  was mapped in the range is not on it and no entry refers to it any more.
\<close>

theorem as_define_region_clears:
  assumes "alloc_inv s fs U" "pt_wf s (as_pagetable (addrspace_heap s as)) U"
    "as_define_region as vaddr sz readable writeable executable s = Some (Inr (OK, s'))"
  shows "as_pagetable (addrspace_heap s' as) = as_pagetable (addrspace_heap s as) \<and>
         (\<forall>j < unat (region_npages vaddr sz).
            l1_entry s' (as_pagetable (addrspace_heap s' as))
              ((vaddr AND PAGE_FRAME) + of_nat j * PAGE_SIZE) \<noteq> 0 \<and>
            l2_entry s' (as_pagetable (addrspace_heap s' as))
              ((vaddr AND PAGE_FRAME) + of_nat j * PAGE_SIZE) = 0) \<and>
         (\<exists>k \<le> length fs. wf_freelist s' (drop k fs))"
proof -
  let ?R = "as_pagetable (addrspace_heap s as)"
  from as_define_region_split [OF assms(3)] obtain s3 where
    s3: "same_frames s s3" "as_pagetable (addrspace_heap s3 as) = ?R"
    "as_define_region_pages as (unat (region_npages vaddr sz)) (vaddr AND PAGE_FRAME) s3 = (OK, s')"
    by blast
  have i3: "alloc_inv s3 fs U" "pt_wf s3 ?R U"
    using assms(1,2) s3(1) by (simp_all add: alloc_inv_same pt_wf_same)
  from as_define_region_pages_OK [OF i3 s3(2) [symmetric] s3(3)] obtain k where
    k: "k \<le> length fs"
    "alloc_inv s' (drop k fs) (U \<union> PADDR_TO_KVADDR ` set (take k fs))"
    "\<forall>j < unat (region_npages vaddr sz).
        pte_cleared s' ?R ((vaddr AND PAGE_FRAME) + of_nat j * PAGE_SIZE)"
    "s' = s3\<lparr>mem := mem s', freeframe := freeframe s'\<rparr>"
    by blast
  have R': "as_pagetable (addrspace_heap s' as) = ?R"
    by (subst k(4)) (simp add: s3(2))
  from k(2) have "wf_freelist s' (drop k fs)" by (simp add: alloc_inv_def)
  with k(1,3) R' show ?thesis by (auto simp: pte_cleared_def)
qed

lemma load32_fun_upd_page:
  assumes "a AND 3 = 0" "b AND PAGE_FRAME \<noteq> a AND PAGE_FRAME"
  shows "load32 (m(b := v)) a = load32 m a"
  using assms(2) by (intro load32_page_cong [OF assms(1)]) auto

lemma ex_proc_wf_freelist: "wf_freelist ex_proc [0x104000, 0x105000, 0x106000, 0x107000]"
  apply (simp add: wf_freelist_def ex_proc_def ex_proc_mem_def fte_of_def frame_table_entry_def)
  apply (simp add: PAGE_FRAME_def PAGE_SIZE_def MIPS_KSEG0_def)
  apply (simp add: load32_upd_other load32_store32_same load32_store32_aligned)
  done

lemma ex_proc_alloc_inv:
  "alloc_inv ex_proc [0x104000, 0x105000, 0x106000, 0x107000]
     {0x80101000, 0x80102000, 0x80103000}"
  unfolding alloc_inv_def
proof
  show "wf_freelist ex_proc [0x104000, 0x105000, 0x106000, 0x107000]"
    by (rule ex_proc_wf_freelist)
  show "frames_sep ex_proc [0x104000, 0x105000, 0x106000, 0x107000]
     {0x80101000, 0x80102000, 0x80103000}"
    by (simp add: frames_sep_def fte_page_def fte_of_def frame_table_entry_def ex_proc_def
        PADDR_TO_KVADDR_def MIPS_KSEG0_def PAGE_SIZE_def PAGE_FRAME_def)
qed

lemma ex_proc_root_entry:
  assumes "i < 1024"
  shows "load32 ex_proc_mem (0x80101000 + i * 4) = (if i = 1 then 0x80102000 else 0)"
proof -
  let ?a = "0x80101000 + i * 4 :: 32 word"
  have pa: "(0x80101000 :: 32 word) AND PAGE_FRAME = 0x80101000" by (simp add: PAGE_FRAME_def)
  have a: "?a AND PAGE_FRAME = 0x80101000" "?a AND 3 = 0"
    using slot_page [OF pa assms] by simp_all
  have e: "(0x80101004 = ?a) = (i = 1)"
    using slot_inj [OF assms, of 1 "0x80101000"] by auto
  have pg: "(0x80103000 :: 32 word) AND PAGE_FRAME = 0x80103000"
    "(0x80102000 :: 32 word) AND PAGE_FRAME = 0x80102000"
    "(0x80100010 :: 32 word) AND PAGE_FRAME = 0x80100000"
    "(0x80100014 :: 32 word) AND PAGE_FRAME = 0x80100000"
    "(0x80100018 :: 32 word) AND PAGE_FRAME = 0x80100000"
    by (simp_all add: PAGE_FRAME_def)
  have "load32 ex_proc_mem ?a =
        load32 (store32 (store32 (store32 (store32 (\<lambda>x. 0) 0x80100010 0x105000)
                  0x80100014 0x106000) 0x80100018 0x107000) 0x80101004 0x80102000) ?a"
    unfolding ex_proc_mem_def using a pg
    by (simp add: load32_fun_upd_page load32_store32_page)
  also have "\<dots> = (if i = 1 then 0x80102000 else
        load32 (store32 (store32 (store32 (\<lambda>x. 0) 0x80100010 0x105000)
                  0x80100014 0x106000) 0x80100018 0x107000) ?a)"
    using a e by (simp add: load32_store32)
  also have "load32 (store32 (store32 (store32 (\<lambda>x. 0) 0x80100010 0x105000)
                  0x80100014 0x106000) 0x80100018 0x107000) ?a = 0"
    using a pg by (simp add: load32_store32_page)
  finally show ?thesis .
qed

lemma ex_proc_pt_wf: "pt_wf ex_proc 0x80101000 {0x80101000, 0x80102000, 0x80103000}"
  by (simp add: pt_wf_def ex_proc_def ex_proc_root_entry PAGE_FRAME_def)

lemma as_prepare_pte_succeeds:
  assumes "alloc_inv s fs U" "pt_wf s R U" "R = as_pagetable (addrspace_heap s as)" "fs \<noteq> []"
  shows "\<exists>s'. as_prepare_pte as v s = (OK, s')"
proof (cases "l1_entry s R v = 0")
  case False
  then show ?thesis unfolding assms(3) by (auto simp: as_prepare_pte_present)
next
  case True
  from assms(4) obtain f fs' where fs: "fs = f # fs'" by (cases fs) auto
  with assms(1) have "alloc_inv s (f # fs') U" by simp
  from as_prepare_pte_absent_ok [OF True assms(3) this pt_wf_root [OF assms(2)]]
  show ?thesis by blast
qed

lemma as_define_region_pages_succeeds:
  assumes "alloc_inv s fs U" "pt_wf s R U" "R = as_pagetable (addrspace_heap s as)"
    "n \<le> length fs"
  shows "\<exists>s'. as_define_region_pages as n v s = (OK, s')"
  using assms
proof (induction n arbitrary: s fs U v)
  case 0
  then show ?case by simp
next
  case (Suc n)
  then have "fs \<noteq> []" by auto
  from as_prepare_pte_succeeds [OF Suc.prems(1,2,3) this] obtain s1 where
    p1: "as_prepare_pte as v s = (OK, s1)" by blast
  from as_prepare_pte_OK [OF Suc.prems(1,2,3) p1] obtain k1 where
    k1: "k1 \<le> 1"
    "alloc_inv s1 (drop k1 fs) (U \<union> PADDR_TO_KVADDR ` set (take k1 fs))"
    "pt_wf s1 R (U \<union> PADDR_TO_KVADDR ` set (take k1 fs))"
    "s1 = s\<lparr>mem := mem s1, freeframe := freeframe s1\<rparr>"
    by blast
  have R1: "R = as_pagetable (addrspace_heap s1 as)"
    by (subst k1(4)) (simp add: Suc.prems(3))
  have "n \<le> length (drop k1 fs)" using Suc.prems(4) k1(1) by simp
  from Suc.IH [OF k1(2,3) R1 this] p1 show ?case by simp
qed

lemma as_last_region_list:
  "region_list s a (xs @ [l]) \<Longrightarrow> as_last_region a s = Some l"
proof (induction xs arbitrary: a)
  case Nil
  then show ?case by (subst as_last_region.simps) simp
next
  case (Cons x xs)
  then have a: "a = x" and n: "region_list s (as_next_region (region_heap s x)) (xs @ [l])"
    by auto
  from n have "as_next_region (region_heap s x) \<noteq> 0" by (cases xs) auto
  with Cons.IH [OF n] a show ?case by (subst as_last_region.simps) simp
qed

lemma region_list_snoc:
  assumes "region_list s a (xs @ [l])" "p \<notin> set (xs @ [l])" "p \<noteq> 0"
    "region_heap s' = (region_heap s)(l := (region_heap s l)\<lparr>as_next_region := p\<rparr>, p := node)"
    "as_next_region node = 0"
  shows "region_list s' a (xs @ [l, p])"
  using assms(1,2)
proof (induction xs arbitrary: a)
  case Nil
  then show ?case using assms(3,4,5) by auto
next
  case (Cons x xs)
  then have a: "a = x" "x \<noteq> 0"
    and n: "region_list s (as_next_region (region_heap s x)) (xs @ [l])"
    and ne: "p \<noteq> x" "p \<notin> set (xs @ [l])"
    by auto
  from Cons.prems(1) have "region_list s a (x # (xs @ [l]))" by simp
  then have "x \<notin> set (xs @ [l])" by (rule region_list_hd_notin)
  then have "x \<noteq> l" by simp
  with ne have "as_next_region (region_heap s' x) = as_next_region (region_heap s x)"
    by (simp add: assms(4))
  with Cons.IH [OF n ne(2)] a show ?case by simp
qed

lemma as_init_region_eq:
  assumes "p \<noteq> 0"
  shows "as_init_region p v n r w x s =
     Inr (s\<lparr>region_heap := (region_heap s)
            (p := \<lparr>as_vbase = v, as_npages = n, as_permissions = r OR w OR x,
                   as_next_region = 0\<rparr>)\<rparr>)"
proof -
  obtain a b c d where "region_heap s p =
      \<lparr>as_vbase = a, as_npages = b, as_permissions = c, as_next_region = d\<rparr>"
    by (cases "region_heap s p") auto
  with assms show ?thesis by (simp add: as_init_region_def set_region_def Let_def)
qed

lemma kmalloc_Cons: "kmalloc_pool s = p # pool \<Longrightarrow> kmalloc s = (p, s\<lparr>kmalloc_pool := pool\<rparr>)"
  by (simp add: kmalloc_def)

lemma as_define_region_regions:
  assumes as: "as \<noteq> 0" and rl: "region_list s (as_regions_start (addrspace_heap s as)) rs"
    and pool: "kmalloc_pool s = p # pool" and p: "p \<noteq> 0" "p \<notin> set rs"
  shows "\<exists>s3. as_define_region as vaddr sz r w x s =
             Some (Inr (as_define_region_pages as (unat (region_npages vaddr sz))
                          (vaddr AND PAGE_FRAME) s3)) \<and>
           same_frames s s3 \<and>
           as_pagetable (addrspace_heap s3 as) = as_pagetable (addrspace_heap s as) \<and>
           region_list s3 (as_regions_start (addrspace_heap s3 as)) (rs @ [p]) \<and>
           region_heap s3 p =
             \<lparr>as_vbase = vaddr AND PAGE_FRAME, as_npages = region_npages vaddr sz,
              as_permissions = r OR w OR x, as_next_region = 0\<rparr> \<and>
           (\<forall>q \<in> set rs. as_vbase (region_heap s3 q) = as_vbase (region_heap s q) \<and>
              as_npages (region_heap s3 q) = as_npages (region_heap s q) \<and>
              as_permissions (region_heap s3 q) = as_permissions (region_heap s q)) \<and>
           curthread_addrspace s3 = curthread_addrspace s \<and> tlb s3 = tlb s \<and>
           kmalloc_pool s3 = pool"
proof (cases rs rule: rev_cases)
  case Nil
  with rl have st: "as_regions_start (addrspace_heap s as) = 0" by simp
  let ?node = "\<lparr>as_vbase = vaddr AND PAGE_FRAME, as_npages = region_npages vaddr sz,
              as_permissions = r OR w OR x, as_next_region = 0\<rparr>"
  let ?s3 = "s\<lparr>kmalloc_pool := pool,
              addrspace_heap := (addrspace_heap s)(as := (addrspace_heap s as)\<lparr>as_regions_start := p\<rparr>),
              region_heap := (region_heap s)(p := ?node)\<rparr>"
  have "as_define_region as vaddr sz r w x s =
             Some (Inr (as_define_region_pages as (unat (region_npages vaddr sz))
                          (vaddr AND PAGE_FRAME) ?s3))"
    using as st p(1)
    by (simp add: as_define_region_def kmalloc_Cons [OF pool] set_addrspace_def
        as_init_region_eq region_npages_def Let_def)
  moreover have "same_frames s ?s3" by (simp add: same_frames_def)
  moreover have "region_list ?s3 (as_regions_start (addrspace_heap ?s3 as)) (rs @ [p])"
    using Nil p(1) by simp
  ultimately show ?thesis using Nil by (intro exI [of _ ?s3]) simp
next
  case (snoc rs' l)
  with rl have st: "as_regions_start (addrspace_heap s as) \<noteq> 0" by (cases rs') auto
  from snoc rl have la: "as_last_region (as_regions_start (addrspace_heap s as)) s = Some l"
    by (simp add: as_last_region_list)
  have pl: "p \<noteq> l" using p(2) snoc by auto
  let ?node = "\<lparr>as_vbase = vaddr AND PAGE_FRAME, as_npages = region_npages vaddr sz,
              as_permissions = r OR w OR x, as_next_region = 0\<rparr>"
  let ?s3 = "s\<lparr>kmalloc_pool := pool,
              region_heap := (region_heap s)
                 (l := (region_heap s l)\<lparr>as_next_region := p\<rparr>, p := ?node)\<rparr>"
  have "as_define_region as vaddr sz r w x s =
             Some (Inr (as_define_region_pages as (unat (region_npages vaddr sz))
                          (vaddr AND PAGE_FRAME) ?s3))"
    using as st p(1) la
    by (simp add: as_define_region_def kmalloc_Cons [OF pool] set_region_def
        as_init_region_eq region_npages_def Let_def)
  moreover have "same_frames s ?s3" by (simp add: same_frames_def)
  moreover have "region_list ?s3 (as_regions_start (addrspace_heap ?s3 as)) (rs @ [p])"
  proof -
    have "region_list ?s3 (as_regions_start (addrspace_heap s as)) (rs' @ [l, p])"
      using rl p snoc by (intro region_list_snoc [where s = s and node = ?node]) simp_all
    then show ?thesis using snoc by simp
  qed
  moreover have "\<forall>q \<in> set rs. as_vbase (region_heap ?s3 q) = as_vbase (region_heap s q) \<and>
              as_npages (region_heap ?s3 q) = as_npages (region_heap s q) \<and>
              as_permissions (region_heap ?s3 q) = as_permissions (region_heap s q)"
    using p(2) by auto
  ultimately show ?thesis using pl by (intro exI [of _ ?s3]) simp
qed

lemma ex_proc_fields:
  "as_pagetable (addrspace_heap ex_proc 0x80004000) = 0x80101000"
  "as_regions_start (addrspace_heap ex_proc 0x80004000) = 0x80004010"
  "kmalloc_pool ex_proc = [0x80004020, 0x80004030, 0x80004040, 0x80004050]"
  "mem ex_proc = ex_proc_mem" "curthread_addrspace ex_proc = 0x80004000"
  by (simp_all add: ex_proc_def)

lemma ex_proc_pte: "l2_entry ex_proc 0x80101000 0x400000 = 0x80103001"
  by (simp add: l2_entry_def l1_entry_def pt_index1_def pt_index2_def TOP_TEN_def MID_TEN_def
      ex_proc_fields ex_proc_l1 ex_proc_l2)

lemma ex_region_npages: "unat (region_npages 0x400000 0x2000) = 2"
  by (simp add: region_npages_def PAGE_FRAME_def PAGE_SIZE_def)

lemma ex_proc_define_region:
  "\<exists>s'. as_define_region 0x80004000 0x400000 0x2000 4 2 0 ex_proc = Some (Inr (OK, s'))"
proof -
  have rl: "region_list ex_proc (as_regions_start (addrspace_heap ex_proc 0x80004000)) [0x80004010]"
    unfolding ex_proc_fields by (rule ex_proc_regions)
  have pool: "kmalloc_pool ex_proc = 0x80004020 # [0x80004030, 0x80004040, 0x80004050]"
    by (simp add: ex_proc_fields)
  from as_define_region_regions [where vaddr = "0x400000" and sz = "0x2000" and r = 4 and w = 2
      and x = 0, OF _ rl pool] obtain s3 where
    s3: "as_define_region 0x80004000 0x400000 0x2000 4 2 0 ex_proc =
           Some (Inr (as_define_region_pages 0x80004000 (unat (region_npages 0x400000 0x2000))
                          (0x400000 AND PAGE_FRAME) s3))"
    "same_frames ex_proc s3"
    "as_pagetable (addrspace_heap s3 0x80004000) = as_pagetable (addrspace_heap ex_proc 0x80004000)"
    by auto
  have "alloc_inv s3 [0x104000, 0x105000, 0x106000, 0x107000] {0x80101000, 0x80102000, 0x80103000}"
    "pt_wf s3 0x80101000 {0x80101000, 0x80102000, 0x80103000}"
    using s3(2) ex_proc_alloc_inv ex_proc_pt_wf by (simp_all add: alloc_inv_same pt_wf_same)
  moreover have "0x80101000 = as_pagetable (addrspace_heap s3 0x80004000)"
    by (simp add: s3(3) ex_proc_fields)
  moreover have "unat (region_npages 0x400000 0x2000) \<le>
      length [0x104000, 0x105000, 0x106000, 0x107000 :: paddr_t]"
    by (simp add: ex_region_npages)
  ultimately obtain s' where
    "as_define_region_pages 0x80004000 (unat (region_npages 0x400000 0x2000))
        (0x400000 AND PAGE_FRAME) s3 = (OK, s')"
    using as_define_region_pages_succeeds by blast
  with s3(1) show ?thesis by simp
qed

theorem as_define_region_clears_witness:
  "alloc_inv ex_proc [0x104000, 0x105000, 0x106000, 0x107000]
     {0x80101000, 0x80102000, 0x80103000} \<and>
   pt_wf ex_proc (as_pagetable (addrspace_heap ex_proc 0x80004000))
     {0x80101000, 0x80102000, 0x80103000} \<and>
   l2_entry ex_proc 0x80101000 0x400000 = 0x80103001 \<and>
   (\<exists>s'. as_define_region 0x80004000 0x400000 0x2000 4 2 0 ex_proc = Some (Inr (OK, s')) \<and>
      l2_entry s' (as_pagetable (addrspace_heap s' 0x80004000)) 0x400000 = 0 \<and>
      (\<exists>k. wf_freelist s' (drop k [0x104000, 0x105000, 0x106000, 0x107000])))"
proof -
  let ?F = "[0x104000, 0x105000, 0x106000, 0x107000] :: paddr_t list"
  let ?U = "{0x80101000, 0x80102000, 0x80103000} :: 32 word set"
  have w: "pt_wf ex_proc (as_pagetable (addrspace_heap ex_proc 0x80004000)) ?U"
    by (simp add: ex_proc_fields ex_proc_pt_wf)
  from ex_proc_define_region obtain s' where
    d: "as_define_region 0x80004000 0x400000 0x2000 4 2 0 ex_proc = Some (Inr (OK, s'))"
    by blast
  note t = as_define_region_clears [OF ex_proc_alloc_inv w d]
  from t have "\<forall>j < 2. l2_entry s' (as_pagetable (addrspace_heap s' 0x80004000))
      ((0x400000 AND PAGE_FRAME) + of_nat j * PAGE_SIZE) = 0"
    unfolding ex_region_npages by blast
  from this [rule_format, of 0] have z: "l2_entry s' (as_pagetable (addrspace_heap s' 0x80004000)) 0x400000 = 0"
    by (simp add: PAGE_FRAME_def)
  from t have "\<exists>k. wf_freelist s' (drop k ?F)" by blast
  with ex_proc_alloc_inv w ex_proc_pte d z show ?thesis by blast
qed

lemma as_define_stack_loop_OK:
  assumes "alloc_inv s fs U" "pt_wf s R U" "R = as_pagetable (addrspace_heap s as)"
    "as_define_stack_loop as n i s = (OK, s')"
  shows "\<exists>k \<le> length fs.
           alloc_inv s' (drop k fs) (U \<union> PADDR_TO_KVADDR ` set (take k fs)) \<and>
           pt_wf s' R (U \<union> PADDR_TO_KVADDR ` set (take k fs)) \<and>
           (\<forall>j < n. pte_cleared s' R (USERSTACK - of_nat (i + j) * PAGE_SIZE)) \<and>
           (\<forall>w. pte_cleared s R w \<longrightarrow> pte_cleared s' R w) \<and>
           s' = s\<lparr>mem := mem s', freeframe := freeframe s'\<rparr>"
  using assms
proof (induction n arbitrary: s fs U i)
  case 0
  then show ?case by (intro exI [of _ 0]) simp
next
  case (Suc n)
  let ?v = "USERSTACK - of_nat i * PAGE_SIZE"
  from Suc.prems(4) obtain s1 where
    p1: "as_prepare_pte as ?v s = (OK, s1)"
    and r: "as_define_stack_loop as n (i + 1) s1 = (OK, s')"
    by (auto simp: Let_def split: prod.splits status.splits)
  from as_prepare_pte_OK [OF Suc.prems(1,2,3) p1] obtain k1 where
    k1: "k1 \<le> length fs"
    "alloc_inv s1 (drop k1 fs) (U \<union> PADDR_TO_KVADDR ` set (take k1 fs))"
    "pt_wf s1 R (U \<union> PADDR_TO_KVADDR ` set (take k1 fs))"
    "pte_cleared s1 R ?v" "\<forall>w. pte_cleared s R w \<longrightarrow> pte_cleared s1 R w"
    "s1 = s\<lparr>mem := mem s1, freeframe := freeframe s1\<rparr>"
    by blast
  have R1: "R = as_pagetable (addrspace_heap s1 as)"
    by (subst k1(6)) (simp add: Suc.prems(3))
  from Suc.IH [OF k1(2,3) R1 r] obtain k2 where
    k2: "k2 \<le> length (drop k1 fs)"
    "alloc_inv s' (drop k2 (drop k1 fs))
       (U \<union> PADDR_TO_KVADDR ` set (take k1 fs) \<union> PADDR_TO_KVADDR ` set (take k2 (drop k1 fs)))"
    "pt_wf s' R
       (U \<union> PADDR_TO_KVADDR ` set (take k1 fs) \<union> PADDR_TO_KVADDR ` set (take k2 (drop k1 fs)))"
    "\<forall>j < n. pte_cleared s' R (USERSTACK - of_nat (i + 1 + j) * PAGE_SIZE)"
    "\<forall>w. pte_cleared s1 R w \<longrightarrow> pte_cleared s' R w"
    "s' = s1\<lparr>mem := mem s', freeframe := freeframe s'\<rparr>"
    by blast
  have U: "U \<union> PADDR_TO_KVADDR ` set (take k1 fs) \<union> PADDR_TO_KVADDR ` set (take k2 (drop k1 fs)) =
           U \<union> PADDR_TO_KVADDR ` set (take (k1 + k2) fs)"
    by (auto simp: take_add)
  have pages: "\<forall>j < Suc n. pte_cleared s' R (USERSTACK - of_nat (i + j) * PAGE_SIZE)"
  proof (intro allI impI)
    fix j assume j: "j < Suc n"
    show "pte_cleared s' R (USERSTACK - of_nat (i + j) * PAGE_SIZE)"
    proof (cases j)
      case 0
      with k1(4) k2(5) show ?thesis by simp
    next
      case (Suc j')
      with j k2(4) have "pte_cleared s' R (USERSTACK - of_nat (i + 1 + j') * PAGE_SIZE)" by simp
      then show ?thesis using Suc by simp
    qed
  qed
  have f: "s' = s\<lparr>mem := mem s', freeframe := freeframe s'\<rparr>"
    by (subst k2(6), subst k1(6)) simp
  have "k1 + k2 \<le> length fs" using k1(1) k2(1) by simp
  moreover have "alloc_inv s' (drop (k1 + k2) fs) (U \<union> PADDR_TO_KVADDR ` set (take (k1 + k2) fs))"
    using k2(2) by (simp add: U add.commute)
  moreover have "pt_wf s' R (U \<union> PADDR_TO_KVADDR ` set (take (k1 + k2) fs))"
    using k2(3) by (simp add: U)
  moreover have "\<forall>w. pte_cleared s R w \<longrightarrow> pte_cleared s' R w" using k1(5) k2(5) by blast
  ultimately show ?case using pages f by (intro exI [of _ "k1 + k2"]) blast
qed

lemma as_define_stack_loop_succeeds:
  assumes "alloc_inv s fs U" "pt_wf s R U" "R = as_pagetable (addrspace_heap s as)"
    "n \<le> length fs"
  shows "\<exists>s'. as_define_stack_loop as n i s = (OK, s')"
  using assms
proof (induction n arbitrary: s fs U i)
  case 0
  then show ?case by simp
next
  case (Suc n)
  let ?v = "USERSTACK - of_nat i * PAGE_SIZE"
  from Suc have "fs \<noteq> []" by auto
  from as_prepare_pte_succeeds [OF Suc.prems(1,2,3) this] obtain s1 where
    p1: "as_prepare_pte as ?v s = (OK, s1)" by blast
  from as_prepare_pte_OK [OF Suc.prems(1,2,3) p1] obtain k1 where
    k1: "k1 \<le> 1"
    "alloc_inv s1 (drop k1 fs) (U \<union> PADDR_TO_KVADDR ` set (take k1 fs))"
    "pt_wf s1 R (U \<union> PADDR_TO_KVADDR ` set (take k1 fs))"
    "s1 = s\<lparr>mem := mem s1, freeframe := freeframe s1\<rparr>"
    by blast
  have R1: "R = as_pagetable (addrspace_heap s1 as)"
    by (subst k1(4)) (simp add: Suc.prems(3))
  have "n \<le> length (drop k1 fs)" using Suc.prems(4) k1(1) by simp
  from Suc.IH [OF k1(2,3) R1 this] p1 show ?case by (simp add: Let_def)
qed

text \<open>
  Claim C7, as the code has it. A successful \<open>as_define_stack\<close> stores \<open>USERSTACK\<close> as the
  stack pointer, and the pages whose second-level tables it forces present and whose
  entries it sets to 0 are \<open>USERSTACK - j * PAGE_SIZE\<close> for \<open>j < VM_STACKPAGES\<close>: the loop
  starts at \<open>USERSTACK\<close> itself, a page that is not in the stack window of \<open>vm_fault\<close>, and
  stops one page above the bottom of that window. The window is
  \<open>[USERSTACK - VM_STACKPAGES * PAGE_SIZE, USERSTACK)\<close>.
\<close>

theorem as_define_stack_pages:
  assumes "alloc_inv s fs U" "pt_wf s (as_pagetable (addrspace_heap s as)) U"
    "0 < vm_stackpages" "as_define_stack vm_stackpages as s = (OK, sp, s')"
  shows "sp = Some USERSTACK \<and>
         (\<forall>j < vm_stackpages.
            pte_cleared s' (as_pagetable (addrspace_heap s as)) (USERSTACK - of_nat j * PAGE_SIZE)) \<and>
         pte_cleared s' (as_pagetable (addrspace_heap s as)) USERSTACK \<and>
         \<not> stack_window vm_stackpages USERSTACK"
proof -
  let ?R = "as_pagetable (addrspace_heap s as)"
  from assms(4) have sp: "sp = Some USERSTACK"
    and l: "as_define_stack_loop as vm_stackpages 0 s = (OK, s')"
    by (auto simp: as_define_stack_def split: prod.splits status.splits)
  from as_define_stack_loop_OK [OF assms(1,2) refl l]
  have p: "\<forall>j < vm_stackpages. pte_cleared s' ?R (USERSTACK - of_nat j * PAGE_SIZE)"
    by auto
  from p [rule_format, OF assms(3)] have "pte_cleared s' ?R USERSTACK" by simp
  moreover have "\<not> stack_window vm_stackpages USERSTACK" by (simp add: stack_window_def)
  ultimately show ?thesis using sp p by blast
qed

lemma ex_stack_index:
  "pt_index1 USERSTACK = 512" "pt_index1 (USERSTACK - PAGE_SIZE) = 511"
  by (simp_all add: pt_index1_def USERSTACK_def MIPS_KSEG0_def PAGE_SIZE_def TOP_TEN_def)

theorem as_define_stack_pages_witness:
  "alloc_inv ex_proc [0x104000, 0x105000, 0x106000, 0x107000]
     {0x80101000, 0x80102000, 0x80103000} \<and>
   pt_wf ex_proc (as_pagetable (addrspace_heap ex_proc 0x80004000))
     {0x80101000, 0x80102000, 0x80103000} \<and>
   (\<exists>s'. as_define_stack 1 0x80004000 ex_proc = (OK, Some USERSTACK, s') \<and>
      pte_cleared s' 0x80101000 USERSTACK \<and> \<not> stack_window 1 USERSTACK \<and>
      stack_window 1 (USERSTACK - PAGE_SIZE) \<and>
      l1_entry s' 0x80101000 (USERSTACK - PAGE_SIZE) = 0)"
proof -
  let ?F = "[0x104000, 0x105000, 0x106000, 0x107000] :: paddr_t list"
  let ?U = "{0x80101000, 0x80102000, 0x80103000} :: 32 word set"
  have R: "as_pagetable (addrspace_heap ex_proc 0x80004000) = 0x80101000"
    by (simp add: ex_proc_fields)
  have w: "pt_wf ex_proc (as_pagetable (addrspace_heap ex_proc 0x80004000)) ?U"
    by (simp add: R ex_proc_pt_wf)
  have "(1 :: nat) \<le> length ?F" by simp
  from as_define_stack_loop_succeeds [OF ex_proc_alloc_inv w refl this, of 0] obtain s' where
    l: "as_define_stack_loop 0x80004000 1 0 ex_proc = (OK, s')" by blast
  then have d: "as_define_stack 1 0x80004000 ex_proc = (OK, Some USERSTACK, s')"
    by (simp add: as_define_stack_def)
  have pos: "(0 :: nat) < 1" by simp
  from as_define_stack_pages [OF ex_proc_alloc_inv w pos d]
  have c: "pte_cleared s' 0x80101000 USERSTACK" "\<not> stack_window 1 USERSTACK"
    by (simp_all add: R)
  have sw: "stack_window 1 (USERSTACK - PAGE_SIZE)"
    by (simp add: stack_window_def USERSTACK_def MIPS_KSEG0_def PAGE_SIZE_def)
  from l have p: "as_prepare_pte 0x80004000 USERSTACK ex_proc = (OK, s')"
    by (simp add: Let_def split: prod.splits status.splits)
  from as_prepare_pte_OK [OF ex_proc_alloc_inv w refl p]
  have "\<forall>w. pt_index1 w \<noteq> pt_index1 USERSTACK \<longrightarrow>
          l1_entry s' 0x80101000 w = l1_entry ex_proc 0x80101000 w"
    by (auto simp: R)
  then have "l1_entry s' 0x80101000 (USERSTACK - PAGE_SIZE) =
      l1_entry ex_proc 0x80101000 (USERSTACK - PAGE_SIZE)"
    by (simp add: ex_stack_index)
  also have "\<dots> = 0"
    using ex_proc_root_entry [of 511]
    by (simp add: l1_entry_def ex_stack_index ex_proc_fields)
  finally have z: "l1_entry s' 0x80101000 (USERSTACK - PAGE_SIZE) = 0" .
  from ex_proc_alloc_inv w d c sw z show ?thesis by blast
qed

lemma pt_index_page [simp]:
  "pt_index1 (v AND PAGE_FRAME) = pt_index1 v" "pt_index2 (v AND PAGE_FRAME) = pt_index2 v"
proof -
  have "PAGE_FRAME AND TOP_TEN = TOP_TEN" "PAGE_FRAME AND MID_TEN = MID_TEN"
    by (simp_all add: PAGE_FRAME_def TOP_TEN_def MID_TEN_def)
  then show "pt_index1 (v AND PAGE_FRAME) = pt_index1 v" "pt_index2 (v AND PAGE_FRAME) = pt_index2 v"
    by (simp_all add: pt_index1_def pt_index2_def and.assoc)
qed

lemma entry_page [simp]:
  "l1_entry s R (v AND PAGE_FRAME) = l1_entry s R v"
  "l2_entry s R (v AND PAGE_FRAME) = l2_entry s R v"
  "pte_cleared s R (v AND PAGE_FRAME) = pte_cleared s R v"
  by (simp_all add: l1_entry_def l2_entry_def pte_cleared_def)

lemma page_plus_page: "(v + PAGE_SIZE) AND PAGE_FRAME = (v AND PAGE_FRAME) + PAGE_SIZE"
proof -
  let ?f = "(v AND PAGE_FRAME) + PAGE_SIZE"
  have "PAGE_SIZE AND PAGE_FRAME = PAGE_SIZE" by (simp add: PAGE_SIZE_def PAGE_FRAME_def)
  then have f: "?f AND PAGE_FRAME = ?f" by (intro page_aligned_add) simp_all
  have "v - (v AND PAGE_FRAME) < 4096" by (subst page_sub) simp_all
  moreover have "(v + PAGE_SIZE) - ?f = v - (v AND PAGE_FRAME)" by simp
  ultimately have "(v + PAGE_SIZE) - ?f < 4096" by simp
  then show ?thesis by (rule page_sub [OF f, THEN iffD1])
qed

lemma unat_pt_index2: "unat (pt_index2 v) = unat v div 4096 mod 1024"
proof -
  have m: "MID_TEN = push_bit 12 (mask 10)"
    by (simp add: MID_TEN_def mask_eq_exp_minus_1 push_bit_eq_mult)
  have "pt_index2 v = take_bit 10 (drop_bit 12 v)"
    unfolding pt_index2_def m
    by (rule bit_word_eqI) (auto simp: bit_simps)
  then show ?thesis
    by (simp add: take_bit_eq_mod drop_bit_eq_div unat_div unat_mod)
qed

lemma vm_fault_regions_found:
  assumes "region_list s a rs"
    "\<forall>q \<in> set rs. as_vbase (region_heap s q) \<noteq> 0 \<and> as_npages (region_heap s q) \<noteq> 0 \<and>
       as_vbase (region_heap s q) AND PAGE_FRAME = as_vbase (region_heap s q)"
    "\<exists>q \<in> set rs. as_vbase (region_heap s q) \<le> fa \<and>
       fa < as_vbase (region_heap s q) + as_npages (region_heap s q) * PAGE_SIZE"
  shows "\<exists>permis. vm_fault_regions a fa s = Some (Inr (fa, permis))"
  using assms
proof (induction rs arbitrary: a)
  case Nil
  then show ?case by simp
next
  case (Cons r rs)
  then have a: "a = r" "r \<noteq> 0" and n: "region_list s (as_next_region (region_heap s r)) rs"
    by auto
  from Cons.prems(2) have ok: "as_vbase (region_heap s r) \<noteq> 0" "as_npages (region_heap s r) \<noteq> 0"
    "as_vbase (region_heap s r) AND PAGE_FRAME = as_vbase (region_heap s r)"
    by auto
  show ?case
  proof (cases "as_vbase (region_heap s r) \<le> fa \<and>
       fa < as_vbase (region_heap s r) + as_npages (region_heap s r) * PAGE_SIZE")
    case True
    with a ok show ?thesis by (subst vm_fault_regions.simps) (simp add: Let_def)
  next
    case False
    with Cons.prems(3) have "\<exists>q \<in> set rs. as_vbase (region_heap s q) \<le> fa \<and>
       fa < as_vbase (region_heap s q) + as_npages (region_heap s q) * PAGE_SIZE"
      by auto
    with Cons.IH [OF n] Cons.prems(2) obtain permis where
      "vm_fault_regions (as_next_region (region_heap s r)) fa s = Some (Inr (fa, permis))"
      by auto
    with a ok False show ?thesis by (subst vm_fault_regions.simps) (auto simp: Let_def)
  qed
qed

lemma vm_fault_pagetable_valid:
  assumes "R = as_pagetable (addrspace_heap s as)" "l1_entry s R v \<noteq> 0"
    "l2_entry s R v AND pv \<noteq> 0"
  shows "vm_fault_pagetable pv as v permis s =
           Inr (vm_fault_dirty permis (l2_entry s R v AND PAGE_FRAME), s)"
  using assms
  by (simp add: vm_fault_pagetable_def l1_entry_def l2_entry_def pt_index1_def pt_index2_def
      Let_def)

lemma vm_fault_pagetable_fresh:
  assumes R: "R = as_pagetable (addrspace_heap s as)" and cl: "pte_cleared s R v"
    and inv: "alloc_inv s (f # fs) U" and wf: "pt_wf s R U"
  shows "vm_fault_pagetable pv as v permis s =
           Inr (vm_fault_dirty permis (PADDR_TO_KVADDR f),
                pop_frame f s\<lparr>mem :=
                  store32 (bzero (store32 (mem s) (fte_of s f) 0) (PADDR_TO_KVADDR f) PAGE_SIZE)
                    (l1_entry s R v + pt_index2 v * 4) (PADDR_TO_KVADDR f OR pv)\<rparr>)"
proof -
  let ?K = "PADDR_TO_KVADDR f"
  let ?T = "l1_entry s R v"
  let ?b = "?T + pt_index2 v * 4"
  note a = alloc_inv_Cons [OF inv]
  from cl have nz: "?T \<noteq> 0" and z: "load32 (mem s) ?b = 0"
    by (simp_all add: pte_cleared_def l2_entry_def)
  note T = pt_wf_entry [OF wf nz]
  have b: "?b AND PAGE_FRAME = ?T" "?b AND 3 = 0" using T(1) by (simp_all add: slot_page)
  have p: "?b AND PAGE_FRAME \<noteq> ?K" "?b AND PAGE_FRAME \<noteq> fte_of s f AND PAGE_FRAME"
    using b(1) T(2) a(5,6) by (auto simp: fte_page_def)
  have "load32 (bzero (store32 (mem s) (fte_of s f) 0) ?K PAGE_SIZE) ?b =
        load32 (store32 (mem s) (fte_of s f) 0) ?b"
    using a(4) b(2) p(1) by (simp add: load32_bzero)
  also have "\<dots> = load32 (mem s) ?b"
    using a(7) b(2) p(2) by (intro load32_store32_page) simp_all
  finally have l: "load32 (bzero (store32 (mem s) (fte_of s f) 0) ?K PAGE_SIZE) ?b = 0"
    using z by simp
  show ?thesis
    using nz z a(1,3) l unfolding R
    by (simp add: vm_fault_pagetable_def l1_entry_def pt_index1_def pt_index2_def Let_def
        as_zero_region_def)
qed

lemma unat_page: "unat (v AND PAGE_FRAME) = unat v div 4096 * 4096"
proof -
  have "v AND PAGE_FRAME = push_bit 12 (drop_bit 12 v)"
    unfolding PAGE_FRAME_mask by (rule bit_word_eqI) (auto simp: bit_simps)
  moreover have "unat (push_bit 12 (drop_bit 12 v)) = unat v div 4096 * 4096"
  proof -
    have "unat (v div 4096) = unat v div 4096" by (simp add: unat_div)
    moreover have "unat v div 4096 * 4096 < 4294967296" using unat32 [of v] by simp
    ultimately have "unat (v div 4096 * 4096) = unat v div 4096 * 4096"
      by (simp add: unat_word_ariths)
    then show ?thesis by (simp add: push_bit_eq_mult drop_bit_eq_div)
  qed
  ultimately show ?thesis by simp
qed

lemma unat_offset: "unat (v AND NOT PAGE_FRAME) = unat v mod 4096"
proof -
  have "v AND NOT PAGE_FRAME = v AND mask 12" by (simp add: PAGE_FRAME_mask)
  also have "\<dots> = take_bit 12 v" by (simp add: take_bit_eq_mask)
  also have "\<dots> = v mod 4096" by (simp add: take_bit_eq_mod)
  finally show ?thesis by (simp add: unat_mod)
qed

lemma region_npages_two:
  "unat (region_npages V (2 * PAGE_SIZE)) = (if unat V mod 4096 = 0 then 2 else 3)"
proof -
  let ?o = "V AND NOT PAGE_FRAME"
  have o: "unat ?o = unat V mod 4096" by (rule unat_offset)
  have "unat (8192 + ?o + 4095) = 12287 + unat V mod 4096"
    using o by (simp add: unat_add32)
  then have "unat ((8192 + ?o + 4095) AND PAGE_FRAME) = (12287 + unat V mod 4096) div 4096 * 4096"
    by (simp add: unat_page)
  then have "unat (region_npages V (2 * PAGE_SIZE)) = (12287 + unat V mod 4096) div 4096"
    by (simp add: region_npages_def PAGE_SIZE_def unat_div)
  then show ?thesis by auto
qed

lemma free_list_unique: "free_list s p fs \<Longrightarrow> free_list s p gs \<Longrightarrow> fs = gs"
proof (induction fs arbitrary: p gs)
  case Nil
  then show ?case by (cases gs) auto
next
  case (Cons f fs)
  then show ?case by (cases gs) auto
qed

lemma vm_fault_tlb_eq: "\<exists>t. vm_fault_tlb fa pa s = s\<lparr>tlb := t\<rparr>"
proof (cases "vm_fault_tlb_loop NUM_TLB 0 fa pa s")
  case None
  then show ?thesis by (auto simp: vm_fault_tlb_def tlb_random_def)
next
  case (Some s')
  from vm_fault_tlb_loop_Some [OF this] show ?thesis
    using Some by (auto simp: vm_fault_tlb_def tlb_write_def)
qed

lemma vm_fault_pagetable_fresh_post:
  assumes inv: "alloc_inv s (f # fs) U" and wf: "pt_wf s R U" and cl: "pte_cleared s R v"
    and s': "s' = pop_frame f s\<lparr>mem :=
                  store32 (bzero (store32 (mem s) (fte_of s f) 0) (PADDR_TO_KVADDR f) PAGE_SIZE)
                    (l1_entry s R v + pt_index2 v * 4) (PADDR_TO_KVADDR f OR pv)\<rparr>"
  shows "alloc_inv s' fs (insert (PADDR_TO_KVADDR f) U)"
    "pt_wf s' R (insert (PADDR_TO_KVADDR f) U)"
    "\<forall>w. l1_entry s' R w = l1_entry s R w"
    "l2_entry s' R v = PADDR_TO_KVADDR f OR pv"
    "\<forall>x. x AND PAGE_FRAME = PADDR_TO_KVADDR f \<longrightarrow> mem s' x = 0"
    "\<forall>w. l1_entry s R w \<noteq> 0 \<and> pt_index2 w \<noteq> pt_index2 v \<longrightarrow>
       l2_entry s' R w = l2_entry s R w"
proof -
  let ?K = "PADDR_TO_KVADDR f"
  let ?e = "fte_of s f"
  let ?T = "l1_entry s R v"
  let ?c = "?T + pt_index2 v * 4"
  let ?M = "store32 (bzero (store32 (mem s) ?e 0) ?K PAGE_SIZE) ?c (?K OR pv)"
  note a = alloc_inv_Cons [OF inv]
  note Rr = pt_wf_root [OF wf]
  from cl have nz: "?T \<noteq> 0" by (simp add: pte_cleared_def)
  note T = pt_wf_entry [OF wf nz]
  have c: "?c AND PAGE_FRAME = ?T" "?c AND 3 = 0" using T(1) by (simp_all add: slot_page)
  have e: "?e AND PAGE_FRAME \<notin> insert ?K U" using a(6) by (simp add: fte_page_def)
  have m': "mem s' = ?M" by (simp add: s')
  have rd: "load32 ?M b = (if b = ?c then ?K OR pv else load32 (mem s) b)"
    if b: "b AND 3 = 0" "b AND PAGE_FRAME \<in> U" for b
  proof -
    have p: "b AND PAGE_FRAME \<noteq> ?K" "b AND PAGE_FRAME \<noteq> ?e AND PAGE_FRAME"
      using b(2) a(5) e by auto
    have "load32 ?M b =
        (if b = ?c then ?K OR pv else load32 (bzero (store32 (mem s) ?e 0) ?K PAGE_SIZE) b)"
      using c(2) b(1) by (auto simp: load32_store32)
    also have "load32 (bzero (store32 (mem s) ?e 0) ?K PAGE_SIZE) b = load32 (store32 (mem s) ?e 0) b"
      using a(4) b(1) p(1) by (simp add: load32_bzero)
    also have "load32 (store32 (mem s) ?e 0) b = load32 (mem s) b"
      using a(7) b(1) p(2) by (intro load32_store32_page) simp_all
    finally show ?thesis .
  qed
  have outside: "\<forall>x. x AND PAGE_FRAME \<notin> insert ?K U \<longrightarrow> ?M x = mem (pop_frame f s) x"
  proof (intro allI impI)
    fix x assume x: "x AND PAGE_FRAME \<notin> insert ?K U"
    then have "x AND PAGE_FRAME \<noteq> ?c AND PAGE_FRAME" "x AND PAGE_FRAME \<noteq> ?K"
      using c(1) T(2) by auto
    then show "?M x = mem (pop_frame f s) x"
      using c(2) a(4) by (simp add: store32_page bzero_page)
  qed
  have "alloc_inv (pop_frame f s\<lparr>mem := ?M\<rparr>) fs (insert ?K U)"
    using a(2) outside by (rule alloc_inv_mem)
  then show "alloc_inv s' fs (insert ?K U)" by (simp add: s')
  have l1: "load32 (mem s') (R + i * 4) = load32 (mem s) (R + i * 4)" if "i < 1024" for i
  proof -
    have "(R + i * 4) AND PAGE_FRAME = R" "(R + i * 4) AND 3 = 0"
      using that Rr(1) by (simp_all add: slot_page)
    moreover from this c(1) T(3) have "R + i * 4 \<noteq> ?c" by auto
    ultimately show ?thesis using Rr(2) by (simp add: m' rd)
  qed
  show "pt_wf s' R (insert ?K U)"
    using wf by (auto simp: pt_wf_def l1)
  have e1: "l1_entry s' R w = l1_entry s R w" for w
    by (simp add: l1_entry_def l1)
  then show "\<forall>w. l1_entry s' R w = l1_entry s R w" by simp
  show "l2_entry s' R v = ?K OR pv"
    by (simp add: l2_entry_def e1) (simp add: m' load32_store32_same)
  show "\<forall>x. x AND PAGE_FRAME = ?K \<longrightarrow> mem s' x = 0"
  proof (intro allI impI)
    fix x assume x: "x AND PAGE_FRAME = ?K"
    then have "x AND PAGE_FRAME \<noteq> ?c AND PAGE_FRAME" using c(1) T(2) a(5) by auto
    with c(2) have "?M x = bzero (store32 (mem s) ?e 0) ?K PAGE_SIZE x" by (rule store32_page)
    with x a(4) show "mem s' x = 0" by (simp add: m' bzero_page)
  qed
  show "\<forall>w. l1_entry s R w \<noteq> 0 \<and> pt_index2 w \<noteq> pt_index2 v \<longrightarrow>
       l2_entry s' R w = l2_entry s R w"
  proof (intro allI impI)
    fix w assume w: "l1_entry s R w \<noteq> 0 \<and> pt_index2 w \<noteq> pt_index2 v"
    then have nzw: "l1_entry s R w \<noteq> 0" and ne: "pt_index2 w \<noteq> pt_index2 v" by simp_all
    note Tw = pt_wf_entry [OF wf nzw]
    let ?b = "l1_entry s R w + pt_index2 w * 4"
    have b: "?b AND 3 = 0" "?b AND PAGE_FRAME = l1_entry s R w"
      using Tw(1) by (simp_all add: slot_page)
    have "?b \<noteq> ?c"
    proof
      assume eq: "?b = ?c"
      then have pg: "?b AND PAGE_FRAME = ?c AND PAGE_FRAME" by (rule arg_cong)
      have t: "l1_entry s R w = ?T" using pg unfolding b(2) c(1) .
      have "?T + pt_index2 w * 4 = ?T + pt_index2 v * 4" using eq unfolding t .
      then have "pt_index2 w = pt_index2 v"
        by (rule slot_inj [OF pt_index_lt(2) pt_index_lt(2)])
      with ne show False by simp
    qed
    then have "load32 ?M ?b = load32 (mem s) ?b" using b Tw(2) by (simp add: rd)
    then show "l2_entry s' R w = l2_entry s R w" by (simp add: l2_entry_def e1 m')
  qed
qed

lemma vm_fault_step:
  assumes ft: "ft = VM_FAULT_READ \<or> ft = VM_FAULT_WRITE"
    and as: "curthread_addrspace s = as" "as \<noteq> 0"
    and rl: "region_list s (as_regions_start (addrspace_heap s as)) rs"
    and ok: "\<forall>q \<in> set rs. as_vbase (region_heap s q) \<noteq> 0 \<and> as_npages (region_heap s q) \<noteq> 0 \<and>
       as_vbase (region_heap s q) AND PAGE_FRAME = as_vbase (region_heap s q)"
    and cov: "\<exists>q \<in> set rs. as_vbase (region_heap s q) \<le> a AND PAGE_FRAME \<and>
       a AND PAGE_FRAME < as_vbase (region_heap s q) + as_npages (region_heap s q) * PAGE_SIZE"
    and nz: "a AND PAGE_FRAME \<noteq> 0"
  shows "\<exists>permis. vm_fault pv vsp ft a s =
           (case vm_fault_pagetable pv as (a AND PAGE_FRAME) permis s of
              Inl h \<Rightarrow> Some (Inl h)
            | Inr (paddr, st1) \<Rightarrow> Some (Inr (OK, vm_fault_tlb (a AND PAGE_FRAME) paddr st1)))"
proof -
  from cov have "rs \<noteq> []" by auto
  with rl have st: "as_regions_start (addrspace_heap s as) \<noteq> 0" by (cases rs) auto
  from vm_fault_regions_found [OF rl ok cov] obtain permis where
    "vm_fault_regions (as_regions_start (addrspace_heap s as)) (a AND PAGE_FRAME) s =
       Some (Inr (a AND PAGE_FRAME, permis))"
    by blast
  with ft as st nz show ?thesis
    by (intro exI [of _ permis])
      (auto simp: vm_fault_def Let_def VM_FAULT_READ_def VM_FAULT_WRITE_def VM_FAULT_READONLY_def)
qed

lemma frametable_bootstrap_loop_fields:
  "frame_table (frametable_bootstrap_loop n i e p s) = frame_table s"
  "frametop (frametable_bootstrap_loop n i e p s) = frametop s"
  "freeframe (frametable_bootstrap_loop n i e p s) = freeframe s"
  by (induction n arbitrary: i p s) (simp_all add: Let_def)

lemma frametable_bootstrap_loop_mem:
  assumes "p AND 3 = 0" "a AND 3 = 0" "\<forall>j < n. a \<noteq> p + of_nat j * 4"
  shows "load32 (mem (frametable_bootstrap_loop n i e p s)) a = load32 (mem s) a"
  using assms
proof (induction n arbitrary: i p s)
  case 0
  then show ?case by simp
next
  case (Suc n)
  have p4: "(p + 4) AND 3 = 0" using Suc.prems(1) by (intro aligned4_add) simp_all
  have ne: "\<forall>j < n. a \<noteq> p + 4 + of_nat j * 4"
  proof (intro allI impI)
    fix j assume "j < n"
    then have "a \<noteq> p + of_nat (Suc j) * 4" using Suc.prems(3) by auto
    then show "a \<noteq> p + 4 + of_nat j * 4" by (simp add: algebra_simps)
  qed
  have ap: "p \<noteq> a" using Suc.prems(3) [rule_format, of 0] by simp
  have st: "load32 (store32 (mem s) p x) a = load32 (mem s) a" for x
    using Suc.prems(1,2) ap by (simp add: load32_store32_aligned)
  show ?case
    using Suc.IH [OF p4 Suc.prems(2) ne] st by (simp add: Let_def)
qed

lemma frametable_bootstrap_Inr:
  assumes "frametable_bootstrap s = Inr s'"
  shows "firstpaddr s AND PAGE_FRAME = firstpaddr s"
    and "lastpaddr s AND PAGE_FRAME = lastpaddr s"
    and "frametop s' = firstpaddr s"
    and "frame_table s' = PADDR_TO_KVADDR (firstpaddr s)"
    and "freeframe s' =
           firstpaddr s + ROUNDUP ((lastpaddr s - firstpaddr s) div PAGE_SIZE * 4) PAGE_SIZE"
    and "freeframe s' < lastpaddr s"
    and "s' = frametable_bootstrap_loop (unat ((lastpaddr s - firstpaddr s) div PAGE_SIZE - 1)) 0
           (ROUNDUP ((lastpaddr s - firstpaddr s) div PAGE_SIZE * 4) PAGE_SIZE div PAGE_SIZE)
           (PADDR_TO_KVADDR (firstpaddr s))
           (s\<lparr>frametop := firstpaddr s,
              freeframe := firstpaddr s +
                ROUNDUP ((lastpaddr s - firstpaddr s) div PAGE_SIZE * 4) PAGE_SIZE,
              frame_table := PADDR_TO_KVADDR (firstpaddr s)\<rparr>)"
  using assms
  by (auto simp: frametable_bootstrap_def ram_getsize_def Let_def frametable_bootstrap_loop_fields
      not_le split: if_splits)

lemma ROUNDUP_zero: "ROUNDUP 0 PAGE_SIZE = 0"
  by (simp add: ROUNDUP_def PAGE_SIZE_def)

lemma frametable_bootstrap_framenum:
  assumes "frametable_bootstrap s = Inr s'"
  shows "4096 \<le> unat (lastpaddr s - firstpaddr s)"
proof (rule ccontr)
  let ?d = "lastpaddr s - firstpaddr s"
  note b = frametable_bootstrap_Inr [OF assms]
  assume "\<not> 4096 \<le> unat ?d"
  then have lt: "unat ?d < 4096" by simp
  then have "?d < 4096" by (simp add: word_less_nat_alt)
  then have "?d AND PAGE_FRAME = 0" by (simp add: lt4096_iff)
  moreover have "?d AND PAGE_FRAME = ?d" using b(2,1) by (rule page_aligned_sub)
  ultimately have d0: "?d = 0" by simp
  then have "?d div PAGE_SIZE * 4 = 0" by simp
  then have "freeframe s' = firstpaddr s" using b(5) by (simp add: ROUNDUP_zero)
  moreover from d0 have "lastpaddr s = firstpaddr s" by simp
  ultimately show False using b(6) by simp
qed

lemma last_frame_index:
  assumes "firsta AND PAGE_FRAME = firsta" "lasta AND PAGE_FRAME = lasta"
    "4096 \<le> unat (lasta - firsta)"
  shows "(lasta - PAGE_SIZE - firsta) div PAGE_SIZE = (lasta - firsta) div PAGE_SIZE - 1"
    and "unat ((lasta - firsta) div PAGE_SIZE - 1) = unat (lasta - firsta) div 4096 - 1"
proof -
  let ?d = "lasta - firsta"
  have e: "lasta - PAGE_SIZE - firsta = ?d - 4096" by (simp add: PAGE_SIZE_def)
  have u: "unat (?d - 4096) = unat ?d - 4096" using assms(3) by (simp add: unat_sub32)
  have n: "1 \<le> unat ?d div 4096" using assms(3) by simp
  have "unat (?d div PAGE_SIZE) = unat ?d div 4096" by (rule unat_div4096)
  with n show m: "unat (?d div PAGE_SIZE - 1) = unat ?d div 4096 - 1"
    by (simp add: unat_sub32)
  have "unat ((?d - 4096) div PAGE_SIZE) = (unat ?d - 4096) div 4096"
    by (simp add: unat_div4096 u)
  also have "\<dots> = unat ?d div 4096 - 1" using assms(3) by simp
  finally show "(lasta - PAGE_SIZE - firsta) div PAGE_SIZE = ?d div PAGE_SIZE - 1"
    unfolding e using m by (simp add: word_unat_eq_iff)
qed

lemma frametable_bootstrap_last_entry:
  assumes "frametable_bootstrap s = Inr s'"
  shows "load32 (mem s') (fte_of s' (lastpaddr s - PAGE_SIZE)) =
         load32 (mem s) (fte_of s' (lastpaddr s - PAGE_SIZE))"
proof -
  let ?d = "lastpaddr s - firstpaddr s"
  let ?n = "?d div PAGE_SIZE - 1"
  let ?p = "PADDR_TO_KVADDR (firstpaddr s)"
  note b = frametable_bootstrap_Inr [OF assms]
  note f = frametable_bootstrap_framenum [OF assms]
  note l = last_frame_index [OF b(1,2) f]
  have a: "fte_of s' (lastpaddr s - PAGE_SIZE) = ?p + ?n * 4"
    by (simp add: fte_of_def frame_table_entry_def b(3,4) l(1))
  have p3: "?p AND 3 = 0" using b(1) by (intro page_aligned_al4 kv_aligned)
  have a3: "fte_of s' (lastpaddr s - PAGE_SIZE) AND 3 = 0"
    using p3 by (intro fte_of_al4) (simp add: b(4))
  have nb: "unat ?n < 1048576" using unat32 [of ?d] by (simp add: l(2))
  have ne: "\<forall>j < unat ?n. ?p + ?n * 4 \<noteq> ?p + of_nat j * 4"
  proof (intro allI impI)
    fix j assume j: "j < unat ?n"
    then have uj: "unat (of_nat j :: 32 word) = j" using nb by (simp add: unat_of_nat take_bit_nat_eq_self)
    then have "unat ((of_nat j :: 32 word) * 4) = j * 4" using j nb by (simp add: unat_mul4)
    moreover have "unat (?n * 4) = unat ?n * 4" using nb by (intro unat_mul4) simp
    ultimately have "?n * 4 \<noteq> (of_nat j :: 32 word) * 4" using j by (auto simp: word_unat_eq_iff)
    then show "?p + ?n * 4 \<noteq> ?p + of_nat j * 4" by simp
  qed
  have "load32 (mem s') (?p + ?n * 4) =
        load32 (mem (s\<lparr>frametop := firstpaddr s,
              freeframe := firstpaddr s +
                ROUNDUP ((lastpaddr s - firstpaddr s) div PAGE_SIZE * 4) PAGE_SIZE,
              frame_table := PADDR_TO_KVADDR (firstpaddr s)\<rparr>)) (?p + ?n * 4)"
    by (subst b(7)) (rule frametable_bootstrap_loop_mem [OF p3 a3 [unfolded a] ne])
  then show ?thesis by (simp add: a)
qed

lemma ex_bootstrap_stale: "frametable_bootstrap ex_boot_stale = Inr ex_stale"
  by (simp add: frametable_bootstrap_def ram_getsize_def ex_boot_stale_def ex_stale_def ex_boot_def
      PAGE_FRAME_def PAGE_SIZE_def ROUNDUP_def PADDR_TO_KVADDR_def MIPS_KSEG0_def Let_def
      frametable_bootstrap_loop_numeral)

lemma alloc_seq_numeral:
  "alloc_seq (numeral k) s =
     (let (v, s1) = alloc_kpages 1 s;
          (vs, s2) = alloc_seq (pred_numeral k) s1
      in (v # vs, s2))"
  by (simp only: numeral_eq_Suc alloc_seq.simps)

lemma ex_stale_alloc_seq:
  "fst (alloc_seq 4 ex_stale) = [0x80101000, 0x80102000, 0x80103000, 0x80101000]"
  by (simp add: alloc_seq_numeral alloc_kpages_def getppages_def frame_table_entry_def
      ex_stale_def ex_boot_def PAGE_SIZE_def PADDR_TO_KVADDR_def MIPS_KSEG0_def Let_def
      load32_store32)

text \<open>
  Claim C4, as the code has it. After \<open>frametable_bootstrap\<close> the frame table is live and a
  request for more than one frame fails. But the loop of \<open>frametable_bootstrap\<close> runs for
  \<open>i < framenum - 1\<close>: it makes the last frame the successor of the frame before it and never
  writes the \<open>next_freeframe\<close> field of the last frame itself, which still holds what the
  memory held before. The free list is therefore terminated by 0 only if that word happened
  to be 0. In the machine \<open>ex_boot_stale\<close> the word holds \<open>0x101000\<close>: three frames are free
  after bootstrap, four allocations in a row succeed, and the fourth returns the address
  of the first again.
\<close>

theorem frametable_bootstrap_unterminated:
  assumes "frametable_bootstrap s = Inr s'" "firstpaddr s < MIPS_KSEG0"
  shows "frame_table s' \<noteq> 0 \<and>
         (1 < n \<longrightarrow> alloc_kpages n s' = (0, s')) \<and>
         load32 (mem s') (fte_of s' (lastpaddr s - PAGE_SIZE)) =
           load32 (mem s) (fte_of s' (lastpaddr s - PAGE_SIZE))"
proof -
  have "frame_table s' \<noteq> 0"
    using assms(2) by (simp add: frametable_bootstrap_Inr(4) [OF assms(1)] PADDR_TO_KVADDR_nz)
  moreover from this have "1 < n \<longrightarrow> alloc_kpages n s' = (0, s')"
    by (simp add: alloc_kpages_def getppages_def)
  ultimately show ?thesis using frametable_bootstrap_last_entry [OF assms(1)] by simp
qed

theorem frametable_bootstrap_unterminated_witness:
  "frametable_bootstrap ex_boot_stale = Inr ex_stale \<and> firstpaddr ex_boot_stale < MIPS_KSEG0 \<and>
   fte_of ex_stale (lastpaddr ex_boot_stale - PAGE_SIZE) = 0x8010000c \<and>
   load32 (mem ex_stale) 0x8010000c = 0x101000 \<and>
   alloc_kpages 2 ex_stale = (0, ex_stale) \<and>
   fst (alloc_seq 4 ex_stale) = [0x80101000, 0x80102000, 0x80103000, 0x80101000]"
proof -
  have f: "firstpaddr ex_boot_stale < MIPS_KSEG0"
    by (simp add: ex_boot_stale_def ex_boot_def MIPS_KSEG0_def)
  have a: "fte_of ex_stale (lastpaddr ex_boot_stale - PAGE_SIZE) = 0x8010000c"
    by (simp add: fte_of_def frame_table_entry_def ex_stale_def ex_boot_stale_def ex_boot_def
        PAGE_SIZE_def)
  have m: "load32 (mem ex_boot_stale) 0x8010000c = 0x101000"
    by (simp add: ex_boot_stale_def load32_store32_same)
  note t = frametable_bootstrap_unterminated [OF ex_bootstrap_stale f, of 2]
  from t have "load32 (mem ex_stale) 0x8010000c = 0x101000" unfolding a m by blast
  moreover from t have "alloc_kpages 2 ex_stale = (0, ex_stale)" by simp
  ultimately show ?thesis using ex_bootstrap_stale f a ex_stale_alloc_seq by blast
qed

text \<open>
  Claim C8, as the code has it. \<open>free_kpages\<close> compares the physical address with
  \<open>frametop\<close>, and \<open>frametable_bootstrap\<close> sets \<open>frametop\<close> to the first address of usable
  physical memory, where the frame table begins, and \<open>freeframe\<close> to the first address
  after the frame table. So after \<open>frametable_bootstrap\<close> the free is the silent leak only
  for addresses at or below the first byte of the frame table. For every other address of
  the region reserved for the frame table the free is carried out: the address becomes
  the head of the free list, the frame-table entry that \<open>freeppages\<close> computes for it is
  overwritten with the old head, and the next allocation hands the address out.
\<close>

theorem free_kpages_frame_table_region:
  assumes "frametable_bootstrap s = Inr s'" "MIPS_KSEG0 \<le> addr"
  shows "frametop s' = firstpaddr s \<and>
         (KVADDR_TO_PADDR addr \<le> firstpaddr s \<longrightarrow> free_kpages addr s' = Inr s') \<and>
         (firstpaddr s < KVADDR_TO_PADDR addr \<and> KVADDR_TO_PADDR addr < freeframe s' \<longrightarrow>
            free_kpages addr s' = Inr (freeppages (KVADDR_TO_PADDR addr) s') \<and>
            freeframe (freeppages (KVADDR_TO_PADDR addr) s') = KVADDR_TO_PADDR addr \<and>
            load32 (mem (freeppages (KVADDR_TO_PADDR addr) s')) (fte_of s' (KVADDR_TO_PADDR addr)) =
              freeframe s' \<and>
            fst (alloc_kpages 1 (freeppages (KVADDR_TO_PADDR addr) s')) = addr)"
proof -
  let ?p = "KVADDR_TO_PADDR addr"
  note b = frametable_bootstrap_Inr [OF assms(1)]
  have k: "\<not> addr < MIPS_KSEG0" using assms(2) by simp
  have low: "?p \<le> firstpaddr s \<longrightarrow> free_kpages addr s' = Inr s'"
    using k by (simp add: free_kpages_def b(3))
  have high: "free_kpages addr s' = Inr (freeppages ?p s') \<and>
            freeframe (freeppages ?p s') = ?p \<and>
            load32 (mem (freeppages ?p s')) (fte_of s' ?p) = freeframe s' \<and>
            fst (alloc_kpages 1 (freeppages ?p s')) = addr"
    if p: "firstpaddr s < ?p"
  proof -
    have lt: "?p < MIPS_KSEG0"
      using assms(2) unfolding KVADDR_TO_PADDR_def MIPS_KSEG0_def word_less_nat_alt
        word_le_nat_alt unat_sub32
      using unat32 [of addr] by auto
    have nz: "?p \<noteq> 0" using p by (auto simp: word_less_nat_alt)
    have "firstpaddr s < MIPS_KSEG0" using p lt by simp
    then have ft: "frame_table s' \<noteq> 0" by (simp add: b(4) PADDR_TO_KVADDR_nz)
    have 1: "free_kpages addr s' = Inr (freeppages ?p s')"
      using k p by (simp add: free_kpages_def b(3) not_le [symmetric])
    have 2: "freeframe (freeppages ?p s') = ?p" by (simp add: freeppages_def Let_def)
    have 3: "load32 (mem (freeppages ?p s')) (fte_of s' ?p) = freeframe s'"
      by (simp add: freeppages_def Let_def fte_of_def load32_store32_same)
    have "frame_table (freeppages ?p s') \<noteq> 0" using ft by (simp add: freeppages_def Let_def)
    then have 4: "fst (alloc_kpages 1 (freeppages ?p s')) = addr"
      using nz 2 by (simp add: alloc_kpages_def getppages_def Let_def)
    from 1 2 3 4 show ?thesis by simp
  qed
  from b(3) low high show ?thesis by blast
qed

theorem free_kpages_frame_table_region_witness:
  "frametable_bootstrap ex_boot = Inr ex_live \<and> MIPS_KSEG0 \<le> 0x80100004 \<and>
   firstpaddr ex_boot < KVADDR_TO_PADDR 0x80100004 \<and>
   KVADDR_TO_PADDR 0x80100004 < freeframe ex_live \<and>
   fte_of ex_live (KVADDR_TO_PADDR 0x80100004) = frame_table ex_live \<and>
   freeframe (freeppages (KVADDR_TO_PADDR 0x80100004) ex_live) = 0x100004 \<and>
   load32 (mem (freeppages (KVADDR_TO_PADDR 0x80100004) ex_live)) (frame_table ex_live) = 0x101000 \<and>
   fst (alloc_kpages 1 (freeppages (KVADDR_TO_PADDR 0x80100004) ex_live)) = 0x80100004"
proof -
  have h: "MIPS_KSEG0 \<le> 0x80100004" by (simp add: MIPS_KSEG0_def)
  have r: "firstpaddr ex_boot < KVADDR_TO_PADDR 0x80100004"
    "KVADDR_TO_PADDR 0x80100004 < freeframe ex_live"
    by (simp_all add: ex_boot_def ex_live_def KVADDR_TO_PADDR_def MIPS_KSEG0_def)
  have e: "fte_of ex_live (KVADDR_TO_PADDR 0x80100004) = frame_table ex_live"
    by (simp add: fte_of_def frame_table_entry_def ex_live_def KVADDR_TO_PADDR_def MIPS_KSEG0_def
        PAGE_SIZE_def)
  have p: "KVADDR_TO_PADDR 0x80100004 = 0x100004" "freeframe ex_live = 0x101000"
    by (simp_all add: KVADDR_TO_PADDR_def MIPS_KSEG0_def ex_live_def)
  note t = free_kpages_frame_table_region [OF ex_bootstrap h]
  from t r have
    "freeframe (freeppages (KVADDR_TO_PADDR 0x80100004) ex_live) = KVADDR_TO_PADDR 0x80100004"
    "load32 (mem (freeppages (KVADDR_TO_PADDR 0x80100004) ex_live))
       (fte_of ex_live (KVADDR_TO_PADDR 0x80100004)) = freeframe ex_live"
    "fst (alloc_kpages 1 (freeppages (KVADDR_TO_PADDR 0x80100004) ex_live)) = 0x80100004"
    by blast+
  then show ?thesis using ex_bootstrap h r e unfolding e p by (intro conjI) simp_all
qed

lemma region_cover:
  assumes "V \<le> MIPS_KSEG0 - 3 * PAGE_SIZE"
  shows "V AND PAGE_FRAME < (V AND PAGE_FRAME) + region_npages V (2 * PAGE_SIZE) * PAGE_SIZE"
    and "V AND PAGE_FRAME \<le> (V AND PAGE_FRAME) + PAGE_SIZE"
    and "(V AND PAGE_FRAME) + PAGE_SIZE <
           (V AND PAGE_FRAME) + region_npages V (2 * PAGE_SIZE) * PAGE_SIZE"
    and "region_npages V (2 * PAGE_SIZE) \<noteq> 0"
proof -
  let ?n = "region_npages V (2 * PAGE_SIZE)"
  have v: "unat V \<le> 2147471360"
    using assms by (simp add: word_le_nat_alt MIPS_KSEG0_def PAGE_SIZE_def)
  have u: "unat (V AND PAGE_FRAME) \<le> unat V" by (simp add: unat_page)
  have n: "unat ?n = 2 \<or> unat ?n = 3" by (simp add: region_npages_two)
  then have m: "unat (?n * PAGE_SIZE) = unat ?n * 4096"
    by (auto simp: unat_word_ariths PAGE_SIZE_def)
  have p: "unat PAGE_SIZE = 4096" by (simp add: PAGE_SIZE_def)
  show "V AND PAGE_FRAME < (V AND PAGE_FRAME) + ?n * PAGE_SIZE"
    using v u n m unfolding word_less_nat_alt unat_add32 by auto
  show "V AND PAGE_FRAME \<le> (V AND PAGE_FRAME) + PAGE_SIZE"
    using v u p unfolding word_le_nat_alt unat_add32 by auto
  show "(V AND PAGE_FRAME) + PAGE_SIZE < (V AND PAGE_FRAME) + ?n * PAGE_SIZE"
    using v u n m p unfolding word_less_nat_alt unat_add32 by auto
  show "?n \<noteq> 0" using n by (auto simp: unat_eq_0 [symmetric] simp del: unat_eq_0)
qed

lemma pt_index2_next:
  assumes "V \<le> MIPS_KSEG0 - 3 * PAGE_SIZE"
  shows "pt_index2 (V + PAGE_SIZE) \<noteq> pt_index2 V"
proof -
  have v: "unat V \<le> 2147471360"
    using assms by (simp add: word_le_nat_alt MIPS_KSEG0_def PAGE_SIZE_def)
  then have "unat (V + PAGE_SIZE) = unat V + 4096"
    by (simp add: unat_add32 PAGE_SIZE_def)
  then have "unat (V + PAGE_SIZE) div 4096 = Suc (unat V div 4096)" by simp
  then have "unat (pt_index2 (V + PAGE_SIZE)) = Suc (unat V div 4096) mod 1024"
    by (simp add: unat_pt_index2)
  moreover have "Suc (unat V div 4096) mod 1024 \<noteq> unat V div 4096 mod 1024"
    by (simp add: mod_Suc)
  ultimately have "unat (pt_index2 (V + PAGE_SIZE)) \<noteq> unat (pt_index2 V)"
    by (simp add: unat_pt_index2)
  then show ?thesis by auto
qed

lemma vm_fault_first:
  assumes ft: "ft = VM_FAULT_READ \<or> ft = VM_FAULT_WRITE"
    and as: "curthread_addrspace s = as" "as \<noteq> 0"
    and rl: "region_list s (as_regions_start (addrspace_heap s as)) rs"
    and ok: "\<forall>q \<in> set rs. as_vbase (region_heap s q) \<noteq> 0 \<and> as_npages (region_heap s q) \<noteq> 0 \<and>
       as_vbase (region_heap s q) AND PAGE_FRAME = as_vbase (region_heap s q)"
    and cov: "\<exists>q \<in> set rs. as_vbase (region_heap s q) \<le> a AND PAGE_FRAME \<and>
       a AND PAGE_FRAME < as_vbase (region_heap s q) + as_npages (region_heap s q) * PAGE_SIZE"
    and nz: "a AND PAGE_FRAME \<noteq> 0"
    and R: "R = as_pagetable (addrspace_heap s as)"
    and inv: "alloc_inv s (f # fs) U" and wf: "pt_wf s R U" and cl: "pte_cleared s R a"
  shows "\<exists>s'. vm_fault pv vsp ft a s = Some (Inr (OK, s')) \<and>
           alloc_inv s' fs (insert (PADDR_TO_KVADDR f) U) \<and>
           pt_wf s' R (insert (PADDR_TO_KVADDR f) U) \<and>
           (\<forall>w. l1_entry s' R w = l1_entry s R w) \<and>
           l2_entry s' R a = PADDR_TO_KVADDR f OR pv \<and>
           (\<forall>x. x AND PAGE_FRAME = PADDR_TO_KVADDR f \<longrightarrow> mem s' x = 0) \<and>
           (\<forall>w. l1_entry s R w \<noteq> 0 \<and> pt_index2 w \<noteq> pt_index2 a \<longrightarrow>
              l2_entry s' R w = l2_entry s R w) \<and>
           region_heap s' = region_heap s \<and> addrspace_heap s' = addrspace_heap s \<and>
           curthread_addrspace s' = curthread_addrspace s"
proof -
  let ?a = "a AND PAGE_FRAME"
  let ?K = "PADDR_TO_KVADDR f"
  let ?s = "pop_frame f s\<lparr>mem :=
                  store32 (bzero (store32 (mem s) (fte_of s f) 0) ?K PAGE_SIZE)
                    (l1_entry s R ?a + pt_index2 ?a * 4) (?K OR pv)\<rparr>"
  have cl': "pte_cleared s R ?a" using cl by simp
  from vm_fault_step [OF ft as rl ok cov nz, of pv vsp] obtain permis where
    "vm_fault pv vsp ft a s =
           (case vm_fault_pagetable pv as ?a permis s of
              Inl h \<Rightarrow> Some (Inl h)
            | Inr (paddr, st1) \<Rightarrow> Some (Inr (OK, vm_fault_tlb ?a paddr st1)))"
    by blast
  then have r: "vm_fault pv vsp ft a s =
      Some (Inr (OK, vm_fault_tlb ?a (vm_fault_dirty permis ?K) ?s))"
    by (simp add: vm_fault_pagetable_fresh [OF R cl' inv wf])
  define s1 where "s1 = ?s"
  obtain t where t: "vm_fault_tlb ?a (vm_fault_dirty permis ?K) s1 = s1\<lparr>tlb := t\<rparr>"
    using vm_fault_tlb_eq by blast
  note post = vm_fault_pagetable_fresh_post [OF inv wf cl' s1_def]
  have sf: "same_frames s1 (s1\<lparr>tlb := t\<rparr>)" by simp
  have fields: "region_heap s1 = region_heap s" "addrspace_heap s1 = addrspace_heap s"
    "curthread_addrspace s1 = curthread_addrspace s"
    by (simp_all add: s1_def)
  have "alloc_inv (s1\<lparr>tlb := t\<rparr>) fs (insert ?K U)"
    using post(1) by (simp only: alloc_inv_same [OF sf])
  moreover have "pt_wf (s1\<lparr>tlb := t\<rparr>) R (insert ?K U)"
    using post(2) by (simp only: pt_wf_same [OF sf])
  moreover have "\<forall>w. l1_entry (s1\<lparr>tlb := t\<rparr>) R w = l1_entry s R w"
    using post(3) by (simp add: entries_same [OF sf])
  moreover have "l2_entry (s1\<lparr>tlb := t\<rparr>) R a = ?K OR pv"
    using post(4) by (simp add: entries_same [OF sf])
  moreover have "\<forall>x. x AND PAGE_FRAME = ?K \<longrightarrow> mem (s1\<lparr>tlb := t\<rparr>) x = 0"
    using post(5) by simp
  moreover have "\<forall>w. l1_entry s R w \<noteq> 0 \<and> pt_index2 w \<noteq> pt_index2 a \<longrightarrow>
              l2_entry (s1\<lparr>tlb := t\<rparr>) R w = l2_entry s R w"
    using post(6) by (simp add: entries_same [OF sf])
  moreover have "vm_fault pv vsp ft a s = Some (Inr (OK, s1\<lparr>tlb := t\<rparr>))"
    using r t by (simp add: s1_def)
  ultimately show ?thesis using fields by simp
qed

lemma vm_fault_again:
  assumes ft: "ft = VM_FAULT_READ \<or> ft = VM_FAULT_WRITE"
    and as: "curthread_addrspace s = as" "as \<noteq> 0"
    and rl: "region_list s (as_regions_start (addrspace_heap s as)) rs"
    and ok: "\<forall>q \<in> set rs. as_vbase (region_heap s q) \<noteq> 0 \<and> as_npages (region_heap s q) \<noteq> 0 \<and>
       as_vbase (region_heap s q) AND PAGE_FRAME = as_vbase (region_heap s q)"
    and cov: "\<exists>q \<in> set rs. as_vbase (region_heap s q) \<le> a AND PAGE_FRAME \<and>
       a AND PAGE_FRAME < as_vbase (region_heap s q) + as_npages (region_heap s q) * PAGE_SIZE"
    and nz: "a AND PAGE_FRAME \<noteq> 0"
    and R: "R = as_pagetable (addrspace_heap s as)"
    and pr: "l1_entry s R a \<noteq> 0" "l2_entry s R a AND pv \<noteq> 0"
  shows "\<exists>t. vm_fault pv vsp ft a s = Some (Inr (OK, s\<lparr>tlb := t\<rparr>))"
proof -
  let ?a = "a AND PAGE_FRAME"
  from vm_fault_step [OF ft as rl ok cov nz, of pv vsp] obtain permis where
    "vm_fault pv vsp ft a s =
           (case vm_fault_pagetable pv as ?a permis s of
              Inl h \<Rightarrow> Some (Inl h)
            | Inr (paddr, st1) \<Rightarrow> Some (Inr (OK, vm_fault_tlb ?a paddr st1)))"
    by blast
  moreover have "l1_entry s R ?a \<noteq> 0" "l2_entry s R ?a AND pv \<noteq> 0" using pr by simp_all
  ultimately have "vm_fault pv vsp ft a s =
      Some (Inr (OK, vm_fault_tlb ?a (vm_fault_dirty permis (l2_entry s R ?a AND PAGE_FRAME)) s))"
    by (simp add: vm_fault_pagetable_valid [OF R])
  then show ?thesis using vm_fault_tlb_eq [of ?a _ s] by (simp only:) blast
qed

lemma region_list_heap:
  "region_heap s' = region_heap s \<Longrightarrow> region_list s' p rs = region_list s p rs"
  by (rule region_list_cong) simp

lemma or_and_self: "((k :: 32 word) OR pv) AND pv = pv"
  by (rule bit_word_eqI) (auto simp: bit_simps)

lemma as_define_region_state:
  assumes inv: "alloc_inv s0 fs U" and wf: "pt_wf s0 R U"
    and R: "R = as_pagetable (addrspace_heap s0 as)"
    and as: "as \<noteq> 0" and rl: "region_list s0 (as_regions_start (addrspace_heap s0 as)) rs"
    and pool: "kmalloc_pool s0 = p # pool" and p: "p \<noteq> 0" "p \<notin> set rs"
    and df: "as_define_region as V sz r w x s0 = Some (Inr (OK, s1))"
  shows "\<exists>k \<le> length fs. k \<le> unat (region_npages V sz) \<and>
           alloc_inv s1 (drop k fs) (U \<union> PADDR_TO_KVADDR ` set (take k fs)) \<and>
           pt_wf s1 R (U \<union> PADDR_TO_KVADDR ` set (take k fs)) \<and>
           (\<forall>j < unat (region_npages V sz).
              pte_cleared s1 R ((V AND PAGE_FRAME) + of_nat j * PAGE_SIZE))"
    and "as_pagetable (addrspace_heap s1 as) = R"
    and "region_list s1 (as_regions_start (addrspace_heap s1 as)) (rs @ [p])"
    and "region_heap s1 p =
           \<lparr>as_vbase = V AND PAGE_FRAME, as_npages = region_npages V sz,
            as_permissions = r OR w OR x, as_next_region = 0\<rparr>"
    and "\<forall>q \<in> set rs. as_vbase (region_heap s1 q) = as_vbase (region_heap s0 q) \<and>
              as_npages (region_heap s1 q) = as_npages (region_heap s0 q) \<and>
              as_permissions (region_heap s1 q) = as_permissions (region_heap s0 q)"
    and "curthread_addrspace s1 = curthread_addrspace s0"
proof -
  from as_define_region_regions [where vaddr = V and sz = sz and r = r and w = w and x = x,
      OF as rl pool p] obtain s3 where
    c: "as_define_region as V sz r w x s0 =
             Some (Inr (as_define_region_pages as (unat (region_npages V sz))
                          (V AND PAGE_FRAME) s3)) \<and>
           same_frames s0 s3 \<and>
           as_pagetable (addrspace_heap s3 as) = as_pagetable (addrspace_heap s0 as) \<and>
           region_list s3 (as_regions_start (addrspace_heap s3 as)) (rs @ [p]) \<and>
           region_heap s3 p =
             \<lparr>as_vbase = V AND PAGE_FRAME, as_npages = region_npages V sz,
              as_permissions = r OR w OR x, as_next_region = 0\<rparr> \<and>
           (\<forall>q \<in> set rs. as_vbase (region_heap s3 q) = as_vbase (region_heap s0 q) \<and>
              as_npages (region_heap s3 q) = as_npages (region_heap s0 q) \<and>
              as_permissions (region_heap s3 q) = as_permissions (region_heap s0 q)) \<and>
           curthread_addrspace s3 = curthread_addrspace s0 \<and> tlb s3 = tlb s0 \<and>
           kmalloc_pool s3 = pool"
    by (rule exE)
  from c have e: "as_define_region as V sz r w x s0 =
             Some (Inr (as_define_region_pages as (unat (region_npages V sz))
                          (V AND PAGE_FRAME) s3))" by (rule conjunct1)
  from c have sf: "same_frames s0 s3" by (elim conjE)
  from c have pt: "as_pagetable (addrspace_heap s3 as) = as_pagetable (addrspace_heap s0 as)"
    by (elim conjE)
  from c have rl3: "region_list s3 (as_regions_start (addrspace_heap s3 as)) (rs @ [p])"
    by (elim conjE)
  from c have rh: "region_heap s3 p =
             \<lparr>as_vbase = V AND PAGE_FRAME, as_npages = region_npages V sz,
              as_permissions = r OR w OR x, as_next_region = 0\<rparr>"
    by (elim conjE)
  from c have old: "\<forall>q \<in> set rs. as_vbase (region_heap s3 q) = as_vbase (region_heap s0 q) \<and>
              as_npages (region_heap s3 q) = as_npages (region_heap s0 q) \<and>
              as_permissions (region_heap s3 q) = as_permissions (region_heap s0 q)"
    by (elim conjE)
  from c have ct: "curthread_addrspace s3 = curthread_addrspace s0" by (elim conjE)
  from e df have pg: "as_define_region_pages as (unat (region_npages V sz))
                          (V AND PAGE_FRAME) s3 = (OK, s1)"
    by simp
  have i3: "alloc_inv s3 fs U" "pt_wf s3 R U"
    using inv wf sf by (simp_all add: alloc_inv_same pt_wf_same)
  have R3: "R = as_pagetable (addrspace_heap s3 as)" using R pt by simp
  from as_define_region_pages_OK [OF i3 R3 pg] obtain k where
    k: "k \<le> length fs" "k \<le> unat (region_npages V sz)"
    "alloc_inv s1 (drop k fs) (U \<union> PADDR_TO_KVADDR ` set (take k fs))"
    "pt_wf s1 R (U \<union> PADDR_TO_KVADDR ` set (take k fs))"
    "\<forall>j < unat (region_npages V sz).
        pte_cleared s1 R ((V AND PAGE_FRAME) + of_nat j * PAGE_SIZE)"
    "s1 = s3\<lparr>mem := mem s1, freeframe := freeframe s1\<rparr>"
    by blast
  from k(1-5) show "\<exists>k \<le> length fs. k \<le> unat (region_npages V sz) \<and>
           alloc_inv s1 (drop k fs) (U \<union> PADDR_TO_KVADDR ` set (take k fs)) \<and>
           pt_wf s1 R (U \<union> PADDR_TO_KVADDR ` set (take k fs)) \<and>
           (\<forall>j < unat (region_npages V sz).
              pte_cleared s1 R ((V AND PAGE_FRAME) + of_nat j * PAGE_SIZE))"
    by blast
  have h: "region_heap s1 = region_heap s3" "addrspace_heap s1 = addrspace_heap s3"
    "curthread_addrspace s1 = curthread_addrspace s3"
  proof -
    show "region_heap s1 = region_heap s3" by (subst k(6)) simp
    show "addrspace_heap s1 = addrspace_heap s3" by (subst k(6)) simp
    show "curthread_addrspace s1 = curthread_addrspace s3" by (subst k(6)) simp
  qed
  show "as_pagetable (addrspace_heap s1 as) = R" unfolding h(2) by (rule R3 [symmetric])
  show "region_list s1 (as_regions_start (addrspace_heap s1 as)) (rs @ [p])"
    using rl3 by (simp add: region_list_heap [OF h(1)] h(2))
  show "region_heap s1 p =
           \<lparr>as_vbase = V AND PAGE_FRAME, as_npages = region_npages V sz,
            as_permissions = r OR w OR x, as_next_region = 0\<rparr>"
    using rh h(1) by simp
  show "\<forall>q \<in> set rs. as_vbase (region_heap s1 q) = as_vbase (region_heap s0 q) \<and>
              as_npages (region_heap s1 q) = as_npages (region_heap s0 q) \<and>
              as_permissions (region_heap s1 q) = as_permissions (region_heap s0 q)"
    using old h(1) by simp
  show "curthread_addrspace s1 = curthread_addrspace s0" using ct h(3) by simp
qed


lemma as_define_region_succeeds:
  assumes inv: "alloc_inv s0 fs U" and wf: "pt_wf s0 R U"
    and R: "R = as_pagetable (addrspace_heap s0 as)"
    and as: "as \<noteq> 0" and rl: "region_list s0 (as_regions_start (addrspace_heap s0 as)) rs"
    and pool: "kmalloc_pool s0 = p # pool" and p: "p \<noteq> 0" "p \<notin> set rs"
    and n: "unat (region_npages V sz) \<le> length fs"
  shows "\<exists>s1. as_define_region as V sz r w x s0 = Some (Inr (OK, s1))"
proof -
  from as_define_region_regions [where vaddr = V and sz = sz and r = r and w = w and x = x,
      OF as rl pool p] obtain s3 where
    c: "as_define_region as V sz r w x s0 =
             Some (Inr (as_define_region_pages as (unat (region_npages V sz))
                          (V AND PAGE_FRAME) s3)) \<and>
           same_frames s0 s3 \<and>
           as_pagetable (addrspace_heap s3 as) = as_pagetable (addrspace_heap s0 as) \<and>
           region_list s3 (as_regions_start (addrspace_heap s3 as)) (rs @ [p]) \<and>
           region_heap s3 p =
             \<lparr>as_vbase = V AND PAGE_FRAME, as_npages = region_npages V sz,
              as_permissions = r OR w OR x, as_next_region = 0\<rparr> \<and>
           (\<forall>q \<in> set rs. as_vbase (region_heap s3 q) = as_vbase (region_heap s0 q) \<and>
              as_npages (region_heap s3 q) = as_npages (region_heap s0 q) \<and>
              as_permissions (region_heap s3 q) = as_permissions (region_heap s0 q)) \<and>
           curthread_addrspace s3 = curthread_addrspace s0 \<and> tlb s3 = tlb s0 \<and>
           kmalloc_pool s3 = pool"
    by (rule exE)
  from c have e: "as_define_region as V sz r w x s0 =
             Some (Inr (as_define_region_pages as (unat (region_npages V sz))
                          (V AND PAGE_FRAME) s3))" by (rule conjunct1)
  from c have sf: "same_frames s0 s3" by (elim conjE)
  from c have pt: "as_pagetable (addrspace_heap s3 as) = as_pagetable (addrspace_heap s0 as)"
    by (elim conjE)
  have i3: "alloc_inv s3 fs U" "pt_wf s3 R U"
    using inv wf sf by (simp_all add: alloc_inv_same pt_wf_same)
  have R3: "R = as_pagetable (addrspace_heap s3 as)" using R pt by simp
  from as_define_region_pages_succeeds [OF i3 R3 n] obtain s1 where
    "as_define_region_pages as (unat (region_npages V sz)) (V AND PAGE_FRAME) s3 = (OK, s1)"
    by blast
  with e show ?thesis by simp
qed

lemma ex_proc_ctx:
  "0x80101000 = as_pagetable (addrspace_heap ex_proc 0x80004000)"
  "(0x80004000 :: 32 word) \<noteq> 0"
  "region_list ex_proc (as_regions_start (addrspace_heap ex_proc 0x80004000)) [0x80004010]"
  "kmalloc_pool ex_proc = 0x80004020 # [0x80004030, 0x80004040, 0x80004050]"
  "(0x80004020 :: 32 word) \<noteq> 0" "(0x80004020 :: 32 word) \<notin> set [0x80004010]"
  using ex_proc_regions by (simp_all add: ex_proc_fields)

lemma ex_proc_region_ok:
  "\<forall>q \<in> set [0x80004010]. as_vbase (region_heap ex_proc q) \<noteq> 0 \<and>
     as_npages (region_heap ex_proc q) \<noteq> 0 \<and>
     as_vbase (region_heap ex_proc q) AND PAGE_FRAME = as_vbase (region_heap ex_proc q)"
  by (simp add: ex_proc_def PAGE_FRAME_def)



lemma addrspace_full_upd:
  "r\<lparr>as_pagetable := p, as_regions_start := q\<rparr> = \<lparr>as_pagetable = p, as_regions_start = q\<rparr>"
  by (cases r) simp

lemma as_create_ok:
  assumes inv: "alloc_inv st (f # fs) U" and pool: "kmalloc_pool st = a # pool" and a: "a \<noteq> 0"
  shows "\<exists>st1. as_create st = (a, st1) \<and>
           alloc_inv st1 fs (insert (PADDR_TO_KVADDR f) U) \<and>
           (\<forall>x. x AND PAGE_FRAME \<in> U \<longrightarrow> mem st1 x = mem st x) \<and>
           (\<forall>x. x AND PAGE_FRAME = PADDR_TO_KVADDR f \<longrightarrow> mem st1 x = 0) \<and>
           region_heap st1 = region_heap st \<and>
           addrspace_heap st1 =
             (addrspace_heap st)(a := \<lparr>as_pagetable = PADDR_TO_KVADDR f, as_regions_start = 0\<rparr>) \<and>
           kmalloc_pool st1 = pool \<and> curthread_addrspace st1 = curthread_addrspace st \<and>
           tlb st1 = tlb st"
proof -
  let ?K = "PADDR_TO_KVADDR f"
  let ?s1 = "st\<lparr>kmalloc_pool := pool\<rparr>"
  let ?M = "bzero (store32 (mem st) (fte_of st f) 0) ?K PAGE_SIZE"
  let ?h = "(addrspace_heap st)(a := \<lparr>as_pagetable = ?K, as_regions_start = 0\<rparr>)"
  let ?r = "(pop_frame f ?s1)\<lparr>mem := ?M, addrspace_heap := ?h\<rparr>"
  have sf: "same_frames st ?s1" by simp
  have inv1: "alloc_inv ?s1 (f # fs) U" using inv by (simp only: alloc_inv_same [OF sf])
  note c = alloc_inv_Cons [OF inv1]
  have fe: "fte_of ?s1 f = fte_of st f" "fte_page ?s1 f = fte_page st f"
    by (simp_all add: fte_of_def fte_page_def frame_table_entry_def)
  have e: "as_create st = (a, ?r)"
    using a c(1,3)
    by (simp add: as_create_def kmalloc_Cons [OF pool] set_addrspace_def as_zero_region_def
        Let_def fe addrspace_full_upd)
  have out: "\<forall>x. x AND PAGE_FRAME \<notin> insert ?K U \<longrightarrow> ?M x = mem (pop_frame f ?s1) x"
    using c(4) by (simp add: bzero_page fe)
  have "alloc_inv (pop_frame f ?s1\<lparr>mem := ?M\<rparr>) fs (insert ?K U)"
    using c(2) out by (rule alloc_inv_mem)
  then have 1: "alloc_inv ?r fs (insert ?K U)"
    by (rule alloc_inv_cong [THEN iffD1, rotated -1]) simp_all
  have 2: "\<forall>x. x AND PAGE_FRAME \<in> U \<longrightarrow> mem ?r x = mem st x"
  proof (intro allI impI)
    fix x assume x: "x AND PAGE_FRAME \<in> U"
    then have "x AND PAGE_FRAME \<noteq> ?K" "x AND PAGE_FRAME \<noteq> fte_of st f AND PAGE_FRAME"
      using c(5,6) by (auto simp: fte_page_def fe)
    then show "mem ?r x = mem st x"
      using c(4,7) by (simp add: bzero_page store32_page fe)
  qed
  have 3: "\<forall>x. x AND PAGE_FRAME = ?K \<longrightarrow> mem ?r x = 0"
    using c(4) by (simp add: bzero_page)
  from e 1 2 3 show ?thesis by (intro exI [of _ ?r]) simp
qed

lemma as_create_fail:
  assumes "wf_freelist st fs" "as_create st = (0, st1)"
  shows "mem st1 = mem st" "freeframe st1 = freeframe st" "region_heap st1 = region_heap st"
    "\<forall>q. q \<notin> set (kmalloc_pool st) \<longrightarrow> addrspace_heap st1 q = addrspace_heap st q"
    "kmalloc_pool st = [] \<or> hd (kmalloc_pool st) = 0 \<or> fs = []"
proof -
  have "mem st1 = mem st \<and> freeframe st1 = freeframe st \<and> region_heap st1 = region_heap st \<and>
    (\<forall>q. q \<notin> set (kmalloc_pool st) \<longrightarrow> addrspace_heap st1 q = addrspace_heap st q) \<and>
    (kmalloc_pool st = [] \<or> hd (kmalloc_pool st) = 0 \<or> fs = [])"
  proof (cases "kmalloc_pool st")
    case Nil
    with assms(2) show ?thesis by (simp add: as_create_def kmalloc_def)
  next
    case (Cons a pool)
    show ?thesis
    proof (cases "a = 0")
      case True
      with Cons assms(2) show ?thesis by (auto simp: as_create_def kmalloc_def)
    next
      case False
      let ?s1 = "st\<lparr>kmalloc_pool := pool\<rparr>"
      have sf: "same_frames st ?s1" by simp
      have w1: "wf_freelist ?s1 fs"
        using assms(1) by (simp add: wf_freelist_def free_list_cong [of ?s1 st])
      show ?thesis
      proof (cases fs)
        case Nil
        with w1 have "alloc_kpages 1 ?s1 = (0, ?s1)" by (simp add: wf_freelist_Nil)
        with Cons False assms(2) Nil show ?thesis
          by (auto simp: as_create_def kmalloc_def set_addrspace_def Let_def)
      next
        case (Cons f fs')
        with w1 have wfc: "wf_freelist ?s1 (f # fs')" by simp
        then have "f < MIPS_KSEG0" by (simp add: wf_freelist_def)
        then have "PADDR_TO_KVADDR f \<noteq> 0" by (rule PADDR_TO_KVADDR_nz)
        with wf_freelist_pop(1) [OF wfc] \<open>kmalloc_pool st = a # pool\<close> False assms(2) show ?thesis
          by (simp add: as_create_def kmalloc_def set_addrspace_def Let_def)
      qed
    qed
  qed
  then show "mem st1 = mem st" "freeframe st1 = freeframe st" "region_heap st1 = region_heap st"
    "\<forall>q. q \<notin> set (kmalloc_pool st) \<longrightarrow> addrspace_heap st1 q = addrspace_heap st q"
    "kmalloc_pool st = [] \<or> hd (kmalloc_pool st) = 0 \<or> fs = []"
    by simp_all
qed

lemma region_full_upd:
  "r\<lparr>as_vbase := a, as_npages := b, as_permissions := c, as_next_region := d\<rparr> =
     \<lparr>as_vbase = a, as_npages = b, as_permissions = c, as_next_region = d\<rparr>"
  by (cases r) simp

lemma as_copy_region_Inr:
  assumes "as_copy_region s news st = Inr st'"
  shows "news \<noteq> 0" "as_vbase (region_heap st s) \<noteq> 0" "as_npages (region_heap st s) \<noteq> 0"
    and "st' = st\<lparr>region_heap := (region_heap st)
            (news := \<lparr>as_vbase = as_vbase (region_heap st s),
                      as_npages = as_npages (region_heap st s),
                      as_permissions = as_permissions (region_heap st s),
                      as_next_region = 0\<rparr>)\<rparr>"
proof -
  from assms show n: "news \<noteq> 0" "as_vbase (region_heap st s) \<noteq> 0"
    "as_npages (region_heap st s) \<noteq> 0"
    by (auto simp: as_copy_region_def split: if_splits)
  obtain a b c d where rs: "region_heap st s =
      \<lparr>as_vbase = a, as_npages = b, as_permissions = c, as_next_region = d\<rparr>"
    by (cases "region_heap st s") auto
  obtain a' b' c' d' where rn: "region_heap st news =
      \<lparr>as_vbase = a', as_npages = b', as_permissions = c', as_next_region = d'\<rparr>"
    by (cases "region_heap st news") auto
  show "st' = st\<lparr>region_heap := (region_heap st)
            (news := \<lparr>as_vbase = as_vbase (region_heap st s),
                      as_npages = as_npages (region_heap st s),
                      as_permissions = as_permissions (region_heap st s),
                      as_next_region = 0\<rparr>)\<rparr>"
  proof (cases "news = s")
    case True
    with assms n rs show ?thesis
      by (simp add: as_copy_region_def set_region_def Let_def)
  next
    case False
    with assms n rs rn show ?thesis
      by (simp add: as_copy_region_def set_region_def Let_def)
  qed
qed

lemma as_copy_regions_same:
  assumes "as_copy_regions s news st = Some y"
  shows "\<forall>st'. y = Inr st' \<longrightarrow> same_frames st st' \<and> addrspace_heap st' = addrspace_heap st"
proof (rule as_copy_regions.raw_induct
    [where P = "\<lambda>s news st y. \<forall>st'. y = Inr st' \<longrightarrow>
        same_frames st st' \<and> addrspace_heap st' = addrspace_heap st", OF _ assms])
  fix f :: "32 word \<Rightarrow> 32 word \<Rightarrow> kstate \<Rightarrow> (halt + kstate) option"
    and s news :: "32 word" and st :: kstate and y :: "halt + kstate"
  assume ih: "\<And>s news st y. f s news st = Some y \<Longrightarrow>
      \<forall>st'. y = Inr st' \<longrightarrow> same_frames st st' \<and> addrspace_heap st' = addrspace_heap st"
  assume eq: "(if s = 0 then Some (Inr st)
      else let olds = news; (news1, st1) = kmalloc st
           in case as_copy_region s news1 st1 of Inl h \<Rightarrow> Some (Inl h)
              | Inr st2 \<Rightarrow>
                  let st3 = set_region olds (as_next_region_update (\<lambda>_. news1)) st2
                  in f (as_next_region (region_heap st3 s)) news1 st3) = Some y"
  show "\<forall>st'. y = Inr st' \<longrightarrow> same_frames st st' \<and> addrspace_heap st' = addrspace_heap st"
  proof (cases "s = 0")
    case True
    with eq show ?thesis by auto
  next
    case False
    obtain news1 st1 where k: "kmalloc st = (news1, st1)" by (cases "kmalloc st")
    show ?thesis
    proof (cases "as_copy_region s news1 st1")
      case (Inl h)
      with eq False k show ?thesis by (auto simp: Let_def)
    next
      case (Inr st2)
      let ?st3 = "set_region news (as_next_region_update (\<lambda>_. news1)) st2"
      from eq False k Inr have
        r: "f (as_next_region (region_heap ?st3 s)) news1 ?st3 = Some y"
        by (simp add: Let_def)
      note i = ih [OF r]
      have a: "same_frames st st1" "addrspace_heap st1 = addrspace_heap st"
        using kmalloc_same [OF k] by simp_all
      have b: "same_frames st1 st2" "addrspace_heap st2 = addrspace_heap st1"
        by (subst as_copy_region_Inr(4) [OF Inr], simp add: same_frames_def)+
      have c: "same_frames st2 ?st3" "addrspace_heap ?st3 = addrspace_heap st2"
        by (simp_all add: set_region_def same_frames_def)
      have "same_frames st ?st3"
        using a(1) b(1) c(1) by (blast intro: same_frames_trans)
      moreover have "addrspace_heap ?st3 = addrspace_heap st" using a(2) b(2) c(2) by simp
      ultimately show ?thesis using i by (auto intro: same_frames_trans)
    qed
  qed
qed

lemma as_copy_pagetable_no_frames:
  assumes "alloc_kpages 1 s = (0, s)" "\<exists>i < n. load32 (mem s) (ov + of_nat i * 4) \<noteq> 0"
  shows "as_copy_pagetable pv n ov nv s = Inl KAssert"
  using assms(2)
proof (induction n arbitrary: ov nv)
  case 0
  then show ?case by simp
next
  case (Suc n)
  show ?case
  proof (cases "load32 (mem s) ov = 0")
    case False
    then show ?thesis using assms(1) by (simp add: load32_store32_same)
  next
    case True
    from Suc.prems obtain i where i: "i < Suc n" "load32 (mem s) (ov + of_nat i * 4) \<noteq> 0"
      by blast
    with True have "i \<noteq> 0" by (auto intro: ccontr)
    then obtain j where j: "i = Suc j" by (cases i) auto
    have eq: "ov + of_nat (Suc j) * 4 = ov + 4 + of_nat j * 4" by (simp add: algebra_simps)
    have "load32 (mem s) (ov + 4 + of_nat j * 4) \<noteq> 0" using i(2) unfolding j eq .
    moreover have "j < n" using i(1) j by simp
    ultimately have "\<exists>j < n. load32 (mem s) (ov + 4 + of_nat j * 4) \<noteq> 0" by blast
    from Suc.IH [OF this] True show ?thesis by simp
  qed
qed

lemma as_copy_ENOMEM:
  assumes wf: "wf_freelist st fs" and res: "as_copy pv old st = Some (Inr (Err e, r, st'))"
  shows "e = ENOMEM \<and> r = None \<and> as_create st = (0, st')"
proof -
  obtain new st1 where c: "as_create st = (new, st1)" by (cases "as_create st")
  show ?thesis
  proof (cases "new = 0")
    case True
    with res c show ?thesis by (simp add: as_copy_def)
  next
    case False
    with res c show ?thesis
      by (auto simp: as_copy_def Let_def split: if_splits prod.splits sum.splits option.splits)
  qed
qed

lemma as_copy_no_frames_left:
  assumes inv: "alloc_inv st [f] U" and wf: "pt_wf st Ro U"
    and Ro: "Ro = as_pagetable (addrspace_heap st old)"
    and old: "old \<noteq> 0" "old \<notin> set (kmalloc_pool st)"
    and pool: "kmalloc_pool st = a # pool" "a \<noteq> 0"
    and rs: "as_regions_start (addrspace_heap st old) \<noteq> 0"
    and pr: "l1_entry st Ro v \<noteq> 0"
  shows "as_copy pv old st \<noteq> Some (Inr x)"
proof -
  let ?K = "PADDR_TO_KVADDR f"
  from as_create_ok [OF inv pool] obtain st1 where
    c: "as_create st = (a, st1)" and i1: "alloc_inv st1 [] (insert ?K U)"
    and m1: "\<forall>x. x AND PAGE_FRAME \<in> U \<longrightarrow> mem st1 x = mem st x"
    and h1: "addrspace_heap st1 =
             (addrspace_heap st)(a := \<lparr>as_pagetable = ?K, as_regions_start = 0\<rparr>)"
    by blast
  have ao: "a \<noteq> old" using old(2) pool(1) by auto
  have o1: "addrspace_heap st1 old = addrspace_heap st old" using ao by (simp add: h1)
  obtain news st2 where k: "kmalloc st1 = (news, st2)" by (cases "kmalloc st1")
  let ?s = "as_regions_start (addrspace_heap st1 old)"
  have e: "as_copy pv old st =
      (case as_copy_region ?s news st2 of
            Inl h \<Rightarrow> Some (Inl h)
          | Inr st3 \<Rightarrow>
              let st4 = set_addrspace a (\<lambda>a. a\<lparr>as_regions_start := news\<rparr>) st3 in
              case as_copy_regions (as_next_region (region_heap st4 ?s)) news st4 of
                None \<Rightarrow> None
              | Some (Inl h) \<Rightarrow> Some (Inl h)
              | Some (Inr st5) \<Rightarrow>
                  (case as_copy_pagetable pv PTE_NUM
                          (as_pagetable (addrspace_heap st5 old))
                          (as_pagetable (addrspace_heap st5 a)) st5 of
                     Inl h \<Rightarrow> Some (Inl h)
                   | Inr st6 \<Rightarrow> Some (Inr (OK, Some a, st6))))"
    using pool(2) old(1) rs by (simp add: as_copy_def c o1 k Let_def)
  show ?thesis
  proof (cases "as_copy_region ?s news st2")
    case (Inl h)
    then show ?thesis by (simp add: e)
  next
    case (Inr st3)
    let ?st4 = "set_addrspace a (\<lambda>a. a\<lparr>as_regions_start := news\<rparr>) st3"
    have s12: "same_frames st1 st2" "addrspace_heap st2 = addrspace_heap st1"
      using kmalloc_same [OF k] by simp_all
    have s23: "same_frames st2 st3" "addrspace_heap st3 = addrspace_heap st2"
      by (subst as_copy_region_Inr(4) [OF Inr], simp add: same_frames_def)+
    have s34: "same_frames st3 ?st4" by simp
    have s14: "same_frames st1 ?st4"
      using s12(1) s23(1) s34 by (blast intro: same_frames_trans)
    have o4: "as_pagetable (addrspace_heap ?st4 old) = Ro"
      using ao by (simp add: set_addrspace_def s23(2) s12(2) o1 Ro)
    show ?thesis
    proof (cases "as_copy_regions (as_next_region (region_heap ?st4 ?s)) news ?st4")
      case None
      with Inr show ?thesis by (simp add: e Let_def)
    next
      case (Some y)
      show ?thesis
      proof (cases y)
        case (Inl h)
        with Some Inr show ?thesis by (simp add: e Let_def)
      next
        case r: (Inr st5)
        from as_copy_regions_same [OF Some] r have
          s45: "same_frames ?st4 st5" "addrspace_heap st5 = addrspace_heap ?st4"
          by simp_all
        have s15: "same_frames st1 st5" using s14 s45(1) by (rule same_frames_trans)
        have "alloc_inv st5 [] (insert ?K U)" using i1 by (simp only: alloc_inv_same [OF s15])
        then have al: "alloc_kpages 1 st5 = (0, st5)" by (rule alloc_inv_Nil)
        have o5: "as_pagetable (addrspace_heap st5 old) = Ro" using o4 by (simp only: s45(2))
        let ?i = "unat (pt_index1 v)"
        let ?x = "Ro + pt_index1 v * 4"
        note Rr = pt_wf_root [OF wf]
        have x: "?x AND PAGE_FRAME = Ro" "?x AND 3 = 0" using Rr(1) by (simp_all add: slot_page)
        have "load32 (mem st1) ?x = load32 (mem st) ?x"
          using x Rr(2) m1 by (intro load32_page_cong) simp_all
        moreover have "mem st5 = mem st1" using s15 by (simp add: same_frames_def)
        ultimately have "load32 (mem st5) (Ro + of_nat ?i * 4) \<noteq> 0"
          using pr by (simp add: l1_entry_def)
        moreover have "?i < PTE_NUM"
          using pt_index_lt(1) [of v] by (simp add: word_less_nat_alt PTE_NUM_def)
        ultimately have "\<exists>i < PTE_NUM. load32 (mem st5) (Ro + of_nat i * 4) \<noteq> 0" by blast
        from as_copy_pagetable_no_frames [OF al this]
        have "as_copy_pagetable pv PTE_NUM Ro (as_pagetable (addrspace_heap st5 a)) st5 =
            Inl KAssert" .
        with Some Inr r show ?thesis by (simp add: e Let_def o5)
      qed
    qed
  qed
qed

lemma as_copy_region_ok:
  assumes "news \<noteq> 0" "as_vbase (region_heap st s) \<noteq> 0" "as_npages (region_heap st s) \<noteq> 0"
  shows "\<exists>st'. as_copy_region s news st = Inr st'"
  using assms by (simp add: as_copy_region_def Let_def)

lemma ex_proc_low_fields:
  "as_pagetable (addrspace_heap ex_proc_low 0x80004000) = 0x80101000"
  "as_regions_start (addrspace_heap ex_proc_low 0x80004000) = 0x80004010"
  "kmalloc_pool ex_proc_low = 0x80004020 # [0x80004030, 0x80004040, 0x80004050]"
  "region_heap ex_proc_low = region_heap ex_proc"
  by (simp_all add: ex_proc_low_def ex_proc_def)

lemma ex_proc_low_root:
  assumes "i < 1024"
  shows "load32 (mem ex_proc_low) (0x80101000 + i * 4) = (if i = 1 then 0x80102000 else 0)"
proof -
  let ?a = "0x80101000 + i * 4 :: 32 word"
  have pa: "(0x80101000 :: 32 word) AND PAGE_FRAME = 0x80101000" by (simp add: PAGE_FRAME_def)
  have a: "?a AND PAGE_FRAME = 0x80101000" "?a AND 3 = 0"
    using slot_page [OF pa assms] by simp_all
  have "load32 (mem ex_proc_low) ?a = load32 ex_proc_mem ?a"
    using a by (simp add: ex_proc_low_def ex_proc_fields load32_store32_page PAGE_FRAME_def)
  then show ?thesis using assms by (simp add: ex_proc_root_entry)
qed

lemma ex_proc_low_pt_wf: "pt_wf ex_proc_low 0x80101000 {0x80101000, 0x80102000, 0x80103000}"
  by (simp add: pt_wf_def ex_proc_low_root PAGE_FRAME_def)

lemma ex_proc_low_l1: "l1_entry ex_proc_low 0x80101000 0x400000 = 0x80102000"
  using ex_proc_low_root [of 1] by (simp add: l1_entry_def pt_index1_def TOP_TEN_def)

lemma ex_proc_low_alloc_inv:
  "alloc_inv ex_proc_low [0x104000] {0x80101000, 0x80102000, 0x80103000}"
  unfolding alloc_inv_def
proof
  show "wf_freelist ex_proc_low [0x104000]"
    apply (simp add: wf_freelist_def ex_proc_low_def ex_proc_def fte_of_def frame_table_entry_def)
    apply (simp add: PAGE_FRAME_def PAGE_SIZE_def MIPS_KSEG0_def load32_store32_same)
    done
  show "frames_sep ex_proc_low [0x104000] {0x80101000, 0x80102000, 0x80103000}"
    by (simp add: frames_sep_def fte_page_def fte_of_def frame_table_entry_def ex_proc_low_def
        ex_proc_def PADDR_TO_KVADDR_def MIPS_KSEG0_def PAGE_SIZE_def PAGE_FRAME_def)
qed

lemma ex_proc_full_alloc_inv:
  "alloc_inv ex_proc_full [] {0x80101000, 0x80102000, 0x80103000}"
  by (simp add: alloc_inv_def wf_freelist_def frames_sep_def ex_proc_full_def ex_proc_def
      PAGE_FRAME_def)

lemma ex_proc_full_pt_wf: "pt_wf ex_proc_full 0x80101000 {0x80101000, 0x80102000, 0x80103000}"
proof -
  have "mem ex_proc_full = mem ex_proc" by (simp add: ex_proc_full_def)
  from pt_wf_cong [OF this] ex_proc_pt_wf show ?thesis by simp
qed

lemma ex_proc_full_copy:
  "as_copy 1 0x80004000 ex_proc_full =
     Some (Inr (Err ENOMEM, None,
       ex_proc_full\<lparr>kmalloc_pool := [0x80004030, 0x80004040, 0x80004050],
         addrspace_heap := (addrspace_heap ex_proc_full)
           (0x80004020 := \<lparr>as_pagetable = 0, as_regions_start = 0\<rparr>)\<rparr>))"
  by (simp add: as_copy_def as_create_def kmalloc_def alloc_kpages_def getppages_def
      set_addrspace_def ex_proc_full_def ex_proc_def Let_def)




lemma of_nat_lt1024: "q < 1024 \<Longrightarrow> (of_nat q :: 32 word) < 1024"
  by (simp add: word_less_nat_alt unat_of_nat take_bit_nat_eq_self)

lemma nslot_page:
  assumes "(T :: 32 word) AND PAGE_FRAME = T" "q < 1024"
  shows "(T + of_nat q * 4) AND PAGE_FRAME = T" "(T + of_nat q * 4) AND 3 = 0"
  using slot_page [OF assms(1) of_nat_lt1024 [OF assms(2)]] by simp_all

lemma nslot_inj:
  assumes "q < 1024" "q' < 1024" "(T :: 32 word) + of_nat q * 4 = T + of_nat q' * 4"
  shows "q = q'"
proof -
  have "(of_nat q :: 32 word) = of_nat q'"
    using slot_inj [OF of_nat_lt1024 [OF assms(1)] of_nat_lt1024 [OF assms(2)] assms(3)] .
  then have "unat (of_nat q :: 32 word) = unat (of_nat q' :: 32 word)" by simp
  then show ?thesis using assms(1,2) by (simp add: unat_of_nat take_bit_nat_eq_self)
qed

lemma nslot_Suc: "(T :: 32 word) + of_nat (Suc q) * 4 = T + of_nat q * 4 + 4"
  by (simp add: algebra_simps)

lemma same_on_refl [simp]: "same_on W m m"
  by (simp add: same_on_def)

lemma same_on_trans: "same_on W m m1 \<Longrightarrow> same_on W m1 m2 \<Longrightarrow> same_on W m m2"
  by (simp add: same_on_def)

lemma same_on_sub: "same_on W m m' \<Longrightarrow> V \<subseteq> W \<Longrightarrow> same_on V m m'"
  by (auto simp: same_on_def)

lemma same_on_load32:
  assumes "same_on W m m'" "a AND 3 = 0" "a AND PAGE_FRAME \<in> W"
  shows "load32 m' a = load32 m a"
  using assms by (intro load32_page_cong) (simp_all add: same_on_def)

lemma as_copy_regions_list:
  assumes rl: "region_list st s rs"
    and d: "distinct (kmalloc_pool st)"
    and fr: "set (kmalloc_pool st) \<inter> set rs = {}" "news \<notin> set rs"
      "news \<notin> set (kmalloc_pool st)"
    and nx: "as_next_region (region_heap st news) = 0"
    and res: "as_copy_regions s news st = Some (Inr st')"
  shows "\<exists>ps. length ps = length rs \<and> kmalloc_pool st = ps @ kmalloc_pool st' \<and> 0 \<notin> set ps \<and>
      same_frames st st' \<and> addrspace_heap st' = addrspace_heap st \<and>
      region_list st' (as_next_region (region_heap st' news)) ps \<and>
      (\<forall>i < length rs.
         as_vbase (region_heap st' (ps ! i)) = as_vbase (region_heap st (rs ! i)) \<and>
         as_npages (region_heap st' (ps ! i)) = as_npages (region_heap st (rs ! i)) \<and>
         as_permissions (region_heap st' (ps ! i)) = as_permissions (region_heap st (rs ! i))) \<and>
      (\<forall>q. q \<notin> set ps \<and> q \<noteq> news \<longrightarrow> region_heap st' q = region_heap st q) \<and>
      as_vbase (region_heap st' news) = as_vbase (region_heap st news) \<and>
      as_npages (region_heap st' news) = as_npages (region_heap st news) \<and>
      as_permissions (region_heap st' news) = as_permissions (region_heap st news)"
  using assms
proof (induction rs arbitrary: s news st)
  case Nil
  then have "s = 0" by simp
  with Nil.prems(7) have "st' = st" by (subst (asm) as_copy_regions.simps) simp
  with Nil.prems(6) show ?case by (intro exI [of _ "[]"]) simp
next
  case (Cons r rs)
  from Cons.prems(1) have s: "s = r" "r \<noteq> 0"
    and rl': "region_list st (as_next_region (region_heap st r)) rs"
    by auto
  obtain news1 st1 where k: "kmalloc st = (news1, st1)" by (cases "kmalloc st")
  from Cons.prems(7) s k obtain st2 where
    cr: "as_copy_region r news1 st1 = Inr st2"
    and rec: "as_copy_regions
        (as_next_region (region_heap (set_region news (\<lambda>r. r\<lparr>as_next_region := news1\<rparr>) st2) r))
        news1 (set_region news (\<lambda>r. r\<lparr>as_next_region := news1\<rparr>) st2) = Some (Inr st')"
    by (subst (asm) as_copy_regions.simps) (auto simp: Let_def split: sum.splits)
  let ?st3 = "set_region news (\<lambda>r. r\<lparr>as_next_region := news1\<rparr>) st2"
  note c = as_copy_region_Inr [OF cr]
  from k c(1) obtain pool1 where pool: "kmalloc_pool st = news1 # pool1"
    and st1: "st1 = st\<lparr>kmalloc_pool := pool1\<rparr>"
    by (cases "kmalloc_pool st") (auto simp: kmalloc_def)
  have ne: "news1 \<noteq> news" "news1 \<noteq> r" "news \<noteq> r" "news1 \<notin> set rs" "news1 \<notin> set pool1"
    "news \<notin> set pool1" "news \<notin> set rs"
    using Cons.prems(2,3,4,5) pool by auto
  have rh1: "region_heap st1 = region_heap st" by (simp add: st1)
  let ?node = "\<lparr>as_vbase = as_vbase (region_heap st r), as_npages = as_npages (region_heap st r),
      as_permissions = as_permissions (region_heap st r), as_next_region = 0\<rparr>"
  have rh3: "region_heap ?st3 =
      (region_heap st)(news1 := ?node, news := (region_heap st news)\<lparr>as_next_region := news1\<rparr>)"
    using ne(1) by (subst c(4)) (simp add: set_region_def rh1)
  have p3: "kmalloc_pool ?st3 = pool1" by (subst c(4)) (simp add: set_region_def st1)
  have sf: "same_frames st ?st3" "addrspace_heap ?st3 = addrspace_heap st"
    by (subst c(4), simp add: set_region_def st1 same_frames_def)+
  have r3: "region_heap ?st3 r = region_heap st r" using ne by (simp add: rh3)
  have "\<forall>q \<in> set rs. as_next_region (region_heap ?st3 q) = as_next_region (region_heap st q)"
    using ne by (auto simp: rh3)
  then have rl3: "region_list ?st3 (as_next_region (region_heap ?st3 r)) rs"
    using rl' by (simp only: r3 region_list_cong)
  have d3: "distinct (kmalloc_pool ?st3)" using Cons.prems(2) pool by (simp add: p3)
  have f3: "set (kmalloc_pool ?st3) \<inter> set rs = {}" "news1 \<notin> set rs"
    "news1 \<notin> set (kmalloc_pool ?st3)"
    using Cons.prems(3) pool ne by (auto simp: p3)
  have n3: "as_next_region (region_heap ?st3 news1) = 0" using ne by (simp add: rh3)
  from Cons.IH [OF rl3 d3 f3 n3 rec] obtain ps where
    ps: "length ps = length rs" "kmalloc_pool ?st3 = ps @ kmalloc_pool st'" "0 \<notin> set ps"
      "same_frames ?st3 st'" "addrspace_heap st' = addrspace_heap ?st3"
      "region_list st' (as_next_region (region_heap st' news1)) ps"
      "\<forall>i < length rs.
         as_vbase (region_heap st' (ps ! i)) = as_vbase (region_heap ?st3 (rs ! i)) \<and>
         as_npages (region_heap st' (ps ! i)) = as_npages (region_heap ?st3 (rs ! i)) \<and>
         as_permissions (region_heap st' (ps ! i)) = as_permissions (region_heap ?st3 (rs ! i))"
      "\<forall>q. q \<notin> set ps \<and> q \<noteq> news1 \<longrightarrow> region_heap st' q = region_heap ?st3 q"
      "as_vbase (region_heap st' news1) = as_vbase (region_heap ?st3 news1)"
      "as_npages (region_heap st' news1) = as_npages (region_heap ?st3 news1)"
      "as_permissions (region_heap st' news1) = as_permissions (region_heap ?st3 news1)"
    by blast
  have sub: "set ps \<subseteq> set pool1" using ps(2) by (auto simp: p3)
  have nps: "news \<notin> set ps" "news1 \<notin> set ps" using sub ne by auto
  have hn: "region_heap st' news = (region_heap st news)\<lparr>as_next_region := news1\<rparr>"
    using ps(8) [rule_format, of news] nps ne by (simp add: rh3)
  have 1: "length (news1 # ps) = length (r # rs)" using ps(1) by simp
  have 2: "kmalloc_pool st = (news1 # ps) @ kmalloc_pool st'" using pool ps(2) by (simp add: p3)
  have 3: "0 \<notin> set (news1 # ps)" using ps(3) c(1) by simp
  have 4: "same_frames st st'" using sf(1) ps(4) by (rule same_frames_trans)
  have 5: "addrspace_heap st' = addrspace_heap st" using ps(5) sf(2) by simp
  have 6: "region_list st' (as_next_region (region_heap st' news)) (news1 # ps)"
    using ps(6) c(1) by (simp add: hn)
  have old3: "region_heap ?st3 q = region_heap st q" if "q \<in> set rs" for q
    using that ne by (auto simp: rh3)
  have 7: "\<forall>i < length (r # rs).
         as_vbase (region_heap st' ((news1 # ps) ! i)) = as_vbase (region_heap st ((r # rs) ! i)) \<and>
         as_npages (region_heap st' ((news1 # ps) ! i)) = as_npages (region_heap st ((r # rs) ! i)) \<and>
         as_permissions (region_heap st' ((news1 # ps) ! i)) =
           as_permissions (region_heap st ((r # rs) ! i))"
  proof (intro allI impI)
    fix i assume i: "i < length (r # rs)"
    show "as_vbase (region_heap st' ((news1 # ps) ! i)) = as_vbase (region_heap st ((r # rs) ! i)) \<and>
         as_npages (region_heap st' ((news1 # ps) ! i)) = as_npages (region_heap st ((r # rs) ! i)) \<and>
         as_permissions (region_heap st' ((news1 # ps) ! i)) =
           as_permissions (region_heap st ((r # rs) ! i))"
    proof (cases i)
      case 0
      then show ?thesis using ps(9,10,11) ne by (simp add: rh3)
    next
      case (Suc j)
      with i have j: "j < length rs" by simp
      then have "rs ! j \<in> set rs" by simp
      from old3 [OF this] ps(7) [rule_format, OF j] Suc show ?thesis by simp
    qed
  qed
  have 8: "\<forall>q. q \<notin> set (news1 # ps) \<and> q \<noteq> news \<longrightarrow> region_heap st' q = region_heap st q"
  proof (intro allI impI)
    fix q assume q: "q \<notin> set (news1 # ps) \<and> q \<noteq> news"
    then have "region_heap st' q = region_heap ?st3 q" using ps(8) by simp
    also have "\<dots> = region_heap st q" using q by (simp add: rh3)
    finally show "region_heap st' q = region_heap st q" .
  qed
  have 9: "as_vbase (region_heap st' news) = as_vbase (region_heap st news)"
    "as_npages (region_heap st' news) = as_npages (region_heap st news)"
    "as_permissions (region_heap st' news) = as_permissions (region_heap st news)"
    by (simp_all add: hn)
  from 1 2 3 4 5 6 7 8 9 show ?case by (intro exI [of _ "news1 # ps"] conjI)
qed

end
